theory Spec2Isabelle
  imports Main
begin

section \<open>Data model\<close>

text \<open>
  The objects of \<^verbatim>\<open>src/index.js\<close>. A property that may be \<^verbatim>\<open>undefined\<close> (or
  \<^verbatim>\<open>null\<close>) is an \<open>option\<close>; \<^verbatim>\<open>JSON.stringify\<close> omits an \<^verbatim>\<open>undefined\<close> property,
  so \<open>None\<close> in a request body is an absent key.
\<close>

record organizer_rec =
  email :: string
  displayName :: string

record attendee_rec = organizer_rec +
  responseStatus :: string

text \<open>One element of the array returned by \<^verbatim>\<open>parseICS\<close>.\<close>

record outlook_event =
  uid :: string
  summary :: string
  description :: string
  location :: string
  start :: string
  "end" :: string
  isAllDay :: bool
  lastModified :: "string option"
  attendees :: "attendee_rec list"
  organizer :: "organizer_rec option"

record private_rec =
  outlookSyncUid :: "string option"
  outlookLastModified :: "string option"

record extended_properties =
  "private" :: "private_rec option"

record event_time =
  date :: "string option"
  dateTime :: "string option"

text \<open>
  An event resource of the destination calendar: \<open>google_event_body\<close> is what the
  worker sends, \<open>google_event\<close> is an item of \<^verbatim>\<open>data.items\<close>, which also has its \<^verbatim>\<open>id\<close>.
\<close>

record google_event_body =
  summary :: "string option"
  description :: "string option"
  location :: "string option"
  extendedProperties :: "extended_properties option"
  attendees :: "attendee_rec list option"
  organizer :: "organizer_rec option"
  start :: "event_time option"
  "end" :: "event_time option"

record google_event = google_event_body +
  id' :: string

record stats_rec =
  created :: nat
  updated :: nat
  deleted :: nat
  unchanged :: nat

record sync_result =
  stats :: stats_rec
  timestamp :: string

section \<open>Requests, responses and the console\<close>

datatype http_method = POST | PATCH | DELETE

text \<open>
  A call of the global \<^verbatim>\<open>fetch\<close> on the events collection. The URL
  \<^verbatim>\<open>.../calendars/${encodeURIComponent(calendarId)}/events[/${eventId}]\<close> is kept as its
  two variable parts, the bearer token as \<open>authorization\<close>.
\<close>

record request =
  "method" :: http_method
  calendarId :: string
  eventId :: "string option"
  authorization :: string
  body :: "google_event_body option"

record response =
  ok :: bool
  status :: nat
  "text" :: string

datatype js_error = Error string

datatype log_line = Console_log string | Console_error string

text \<open>
  \<^verbatim>\<open>fetch\<close> is a parameter: from a request and the state of the outside world it gives
  a response, or rejects (a network failure: \<open>Inl\<close>), and the next state of the world.
  \<open>calls\<close> records every call of \<^verbatim>\<open>fetch\<close> in order, \<open>console\<close> every line written.
\<close>

type_synonym 'w fetch_fn = "request \<Rightarrow> 'w \<Rightarrow> (js_error + response) \<times> 'w"

record 'w io =
  world :: 'w
  calls :: "request list"
  console :: "log_line list"

definition do_fetch :: "'w fetch_fn \<Rightarrow> request \<Rightarrow> 'w io \<Rightarrow> (js_error + response) \<times> 'w io" where
  "do_fetch fetch req s =
     (case fetch req (world s) of
        (r, w') \<Rightarrow> (r, s\<lparr>world := w', calls := calls s @ [req]\<rparr>))"

text \<open>The double quote of the log lines.\<close>

definition dquote :: string where
  "dquote = CHR 0x22 # []"

definition console_log :: "string \<Rightarrow> 'w io \<Rightarrow> 'w io" where
  "console_log line s = s\<lparr>console := console s @ [Console_log line]\<rparr>"

definition console_error :: "string \<Rightarrow> 'w io \<Rightarrow> 'w io" where
  "console_error line s = s\<lparr>console := console s @ [Console_error line]\<rparr>"

section \<open>The three writers\<close>

definition createGoogleEvent ::
  "'w fetch_fn \<Rightarrow> string \<Rightarrow> string \<Rightarrow> google_event_body \<Rightarrow> 'w io \<Rightarrow> (js_error + unit) \<times> 'w io" where
  "createGoogleEvent fetch accessToken calId eventBody s =
     (case do_fetch fetch
             \<lparr>method = POST, calendarId = calId, eventId = None,
              authorization = accessToken, body = Some eventBody\<rparr> s of
        (Inl err, s') \<Rightarrow> (Inl err, s')
      | (Inr resp, s') \<Rightarrow>
          (Inr (), if \<not> ok resp
                   then console_error (''Failed to create event: '' @ text resp) s'
                   else s'))"

definition updateGoogleEvent ::
  "'w fetch_fn \<Rightarrow> string \<Rightarrow> string \<Rightarrow> string \<Rightarrow> google_event_body \<Rightarrow> 'w io
     \<Rightarrow> (js_error + unit) \<times> 'w io" where
  "updateGoogleEvent fetch accessToken calId evId eventBody s =
     (case do_fetch fetch
             \<lparr>method = PATCH, calendarId = calId, eventId = Some evId,
              authorization = accessToken, body = Some eventBody\<rparr> s of
        (Inl err, s') \<Rightarrow> (Inl err, s')
      | (Inr resp, s') \<Rightarrow>
          (Inr (), if \<not> ok resp
                   then console_error (''Failed to update event: '' @ text resp) s'
                   else s'))"

definition deleteGoogleEvent ::
  "'w fetch_fn \<Rightarrow> string \<Rightarrow> string \<Rightarrow> string \<Rightarrow> 'w io \<Rightarrow> (js_error + unit) \<times> 'w io" where
  "deleteGoogleEvent fetch accessToken calId evId s =
     (case do_fetch fetch
             \<lparr>method = DELETE, calendarId = calId, eventId = Some evId,
              authorization = accessToken, body = None\<rparr> s of
        (Inl err, s') \<Rightarrow> (Inl err, s')
      | (Inr resp, s') \<Rightarrow>
          (Inr (), if \<not> ok resp \<and> status resp \<noteq> 404
                   then console_error (''Failed to delete event: '' @ text resp) s'
                   else s'))"

section \<open>The reconciler\<close>

text \<open>
  A JavaScript \<^verbatim>\<open>Map\<close> with string keys, in insertion order: \<^verbatim>\<open>set\<close> on a key that is
  present replaces the value in place, on a new key it appends.
\<close>

type_synonym 'v js_map = "(string \<times> 'v) list"

fun map_set :: "'v js_map \<Rightarrow> string \<Rightarrow> 'v \<Rightarrow> 'v js_map" where
  "map_set [] k v = [(k, v)]"
| "map_set ((k', v') # m) k v =
     (if k' = k then (k, v) # m else (k', v') # map_set m k v)"

definition map_get :: "'v js_map \<Rightarrow> string \<Rightarrow> 'v option" where
  "map_get m k = map_of m k"

text \<open>\<^verbatim>\<open>event.extendedProperties?.private?.outlookSyncUid\<close> and its sibling.\<close>

definition private_of :: "'a google_event_body_scheme \<Rightarrow> private_rec option" where
  "private_of event =
     (case extendedProperties event of
        None \<Rightarrow> None
      | Some ext \<Rightarrow> private ext)"

definition outlookSyncUid_of :: "'a google_event_body_scheme \<Rightarrow> string option" where
  "outlookSyncUid_of event =
     (case private_of event of None \<Rightarrow> None | Some p \<Rightarrow> outlookSyncUid p)"

definition outlookLastModified_of :: "'a google_event_body_scheme \<Rightarrow> string option" where
  "outlookLastModified_of event =
     (case private_of event of None \<Rightarrow> None | Some p \<Rightarrow> outlookLastModified p)"

text \<open>The first loop of \<^verbatim>\<open>syncEvents\<close>; \<^verbatim>\<open>if (uid)\<close> is false on the empty string too.\<close>

fun index_events :: "google_event list \<Rightarrow> google_event js_map \<Rightarrow> google_event js_map" where
  "index_events [] m = m"
| "index_events (event # events) m =
     index_events events
       (case outlookSyncUid_of event of
          None \<Rightarrow> m
        | Some u \<Rightarrow> if u \<noteq> [] then map_set m u event else m)"

definition googleEventsByUid :: "google_event list \<Rightarrow> google_event js_map" where
  "googleEventsByUid googleEvents = index_events googleEvents []"

text \<open>
  \<^verbatim>\<open>s.split(sep)\<close> for a separator of one character, and \<^verbatim>\<open>a[0]\<close>, which is
  \<^verbatim>\<open>undefined\<close> on an empty array.
\<close>

fun split :: "string \<Rightarrow> char \<Rightarrow> string list" where
  "split [] sep = [] # []"
| "split (c # cs) sep =
     (if c = sep then [] # split cs sep
      else (case split cs sep of
              [] \<Rightarrow> [c] # []
            | p # ps \<Rightarrow> (c # p) # ps))"

definition first :: "'a list \<Rightarrow> 'a option" where
  "first xs = (case xs of [] \<Rightarrow> None | x # _ \<Rightarrow> Some x)"

text \<open>The object \<^verbatim>\<open>googleEventBody\<close> built in the second loop.\<close>

definition googleEventBody :: "outlook_event \<Rightarrow> google_event_body" where
  "googleEventBody outlookEvent =
     \<lparr>summary = Some (outlook_event.summary outlookEvent),
      description = Some (outlook_event.description outlookEvent),
      location = Some (outlook_event.location outlookEvent),
      extendedProperties =
        Some \<lparr>private =
                Some \<lparr>outlookSyncUid = Some (uid outlookEvent),
                      outlookLastModified = lastModified outlookEvent\<rparr>\<rparr>,
      attendees =
        (if outlook_event.attendees outlookEvent \<noteq> []
         then Some (outlook_event.attendees outlookEvent) else None),
      organizer =
        (case outlook_event.organizer outlookEvent of
           None \<Rightarrow> None
         | Some org \<Rightarrow> if email org \<noteq> [] then Some org else None),
      start =
        (if isAllDay outlookEvent
         then Some \<lparr>date = first (split (outlook_event.start outlookEvent) CHR ''T''),
                    dateTime = None\<rparr>
         else Some \<lparr>date = None, dateTime = Some (outlook_event.start outlookEvent)\<rparr>),
      end =
        (if isAllDay outlookEvent
         then Some \<lparr>date = first (split (outlook_event.end outlookEvent) CHR ''T''),
                    dateTime = None\<rparr>
         else Some \<lparr>date = None, dateTime = Some (outlook_event.end outlookEvent)\<rparr>)\<rparr>"

definition hasEventChanged ::
  "'a google_event_body_scheme \<Rightarrow> 'b google_event_body_scheme \<Rightarrow> bool" where
  "hasEventChanged googleEvent newEventBody \<longleftrightarrow>
     summary googleEvent \<noteq> summary newEventBody \<or>
     description googleEvent \<noteq> description newEventBody \<or>
     location googleEvent \<noteq> location newEventBody"

text \<open>
  The body of the second loop, on the local variables \<open>stats\<close> (here \<open>st\<close>) and
  \<open>seenUids\<close>. A rejected \<^verbatim>\<open>fetch\<close> is an exception that leaves \<^verbatim>\<open>syncEvents\<close>.
\<close>

definition sync_outlook_event ::
  "'w fetch_fn \<Rightarrow> string \<Rightarrow> string \<Rightarrow> google_event js_map \<Rightarrow> outlook_event
     \<Rightarrow> stats_rec \<Rightarrow> string set \<Rightarrow> 'w io \<Rightarrow> (js_error + stats_rec \<times> string set) \<times> 'w io" where
  "sync_outlook_event fetch accessToken calId byUid outlookEvent st seen s =
     (let seenUids = insert (uid outlookEvent) seen;
          existingGoogleEvent = map_get byUid (uid outlookEvent);
          eventBody = googleEventBody outlookEvent
      in (case existingGoogleEvent of
            None \<Rightarrow>
              (case createGoogleEvent fetch accessToken calId eventBody s of
                 (Inl err, s') \<Rightarrow> (Inl err, s')
               | (Inr _, s') \<Rightarrow>
                   (Inr (st\<lparr>created := created st + 1\<rparr>, seenUids),
                    console_log (''[Calendar Sync] Created: '' @ dquote
                       @ outlook_event.summary outlookEvent @ dquote @ '' (''
                       @ outlook_event.start outlookEvent @ '')'') s'))
          | Some existing \<Rightarrow>
              (if outlookLastModified_of existing \<noteq> lastModified outlookEvent
                  \<or> hasEventChanged existing eventBody
               then (case updateGoogleEvent fetch accessToken calId (id' existing) eventBody s of
                       (Inl err, s') \<Rightarrow> (Inl err, s')
                     | (Inr _, s') \<Rightarrow>
                         (Inr (st\<lparr>updated := updated st + 1\<rparr>, seenUids),
                          console_log (''[Calendar Sync] Updated: '' @ dquote
                             @ outlook_event.summary outlookEvent @ dquote @ '' (''
                             @ outlook_event.start outlookEvent @ '')'') s'))
               else (Inr (st\<lparr>unchanged := unchanged st + 1\<rparr>, seenUids), s))))"

fun sync_outlook_events ::
  "'w fetch_fn \<Rightarrow> string \<Rightarrow> string \<Rightarrow> google_event js_map \<Rightarrow> outlook_event list
     \<Rightarrow> stats_rec \<Rightarrow> string set \<Rightarrow> 'w io \<Rightarrow> (js_error + stats_rec \<times> string set) \<times> 'w io" where
  "sync_outlook_events fetch accessToken calId byUid [] st seenUids s = (Inr (st, seenUids), s)"
| "sync_outlook_events fetch accessToken calId byUid (outlookEvent # rest) st seenUids s =
     (case sync_outlook_event fetch accessToken calId byUid outlookEvent st seenUids s of
        (Inl err, s') \<Rightarrow> (Inl err, s')
      | (Inr (st', seenUids'), s') \<Rightarrow>
          sync_outlook_events fetch accessToken calId byUid rest st' seenUids' s')"

text \<open>The third loop, over the entries of the map in insertion order.\<close>

fun delete_unseen ::
  "'w fetch_fn \<Rightarrow> string \<Rightarrow> string \<Rightarrow> string set \<Rightarrow> google_event js_map
     \<Rightarrow> stats_rec \<Rightarrow> 'w io \<Rightarrow> (js_error + stats_rec) \<times> 'w io" where
  "delete_unseen fetch accessToken calId seenUids [] st s = (Inr st, s)"
| "delete_unseen fetch accessToken calId seenUids ((u, googleEvent) # rest) st s =
     (if u \<notin> seenUids
      then (case deleteGoogleEvent fetch accessToken calId (id' googleEvent) s of
              (Inl err, s') \<Rightarrow> (Inl err, s')
            | (Inr _, s') \<Rightarrow>
                delete_unseen fetch accessToken calId seenUids rest
                  (st\<lparr>deleted := deleted st + 1\<rparr>)
                  (console_log (''[Calendar Sync] Deleted: '' @ dquote
                     @ (case summary googleEvent of None \<Rightarrow> ''undefined'' | Some t \<Rightarrow> t)
                     @ dquote) s'))
      else delete_unseen fetch accessToken calId seenUids rest st s)"

text \<open>\<open>now\<close> is the value of \<^verbatim>\<open>new Date().toISOString()\<close> at the return.\<close>

definition syncEvents ::
  "'w fetch_fn \<Rightarrow> string \<Rightarrow> string \<Rightarrow> string \<Rightarrow> outlook_event list \<Rightarrow> google_event list
     \<Rightarrow> 'w io \<Rightarrow> (js_error + sync_result) \<times> 'w io" where
  "syncEvents fetch now accessToken calId outlookEvents googleEvents s =
     (let byUid = googleEventsByUid googleEvents
      in case sync_outlook_events fetch accessToken calId byUid outlookEvents
                \<lparr>created = 0, updated = 0, deleted = 0, unchanged = 0\<rparr> {} s of
           (Inl err, s') \<Rightarrow> (Inl err, s')
         | (Inr (st, seenUids), s') \<Rightarrow>
             (case delete_unseen fetch accessToken calId seenUids byUid st s' of
                (Inl err, s'') \<Rightarrow> (Inl err, s'')
              | (Inr st', s'') \<Rightarrow> (Inr \<lparr>stats = st', timestamp = now\<rparr>, s'')))"

section \<open>The request handler\<close>

text \<open>
  What \<^verbatim>\<open>fetch(request, env, ctx)\<close> reads of its arguments: the path of the URL, the
  header \<^verbatim>\<open>X-Sync-Token\<close>, the query parameter \<^verbatim>\<open>token\<close> (\<^verbatim>\<open>get\<close> gives \<^verbatim>\<open>null\<close> when
  there is none) and the secret \<^verbatim>\<open>env.SYNC_TOKEN\<close>.
\<close>

record http_request =
  pathname :: string
  header_X_Sync_Token :: "string option"
  param_token :: "string option"

record env_rec =
  SYNC_TOKEN :: "string option"

datatype response_body =
    Text string
  | Json_result sync_result
  | Json_error string

record worker_response =
  resp_body :: response_body
  resp_status :: nat
  resp_content_type :: "string option"

text \<open>Truthiness of a string that may be missing, \<^verbatim>\<open>a || b\<close> and \<^verbatim>\<open>a !== b\<close> on such.\<close>

definition truthy :: "string option \<Rightarrow> bool" where
  "truthy v = (case v of None \<Rightarrow> False | Some t \<Rightarrow> t \<noteq> [])"

definition js_or :: "string option \<Rightarrow> string option \<Rightarrow> string option" where
  "js_or a b = (if truthy a then a else b)"

text \<open>
  \<open>token\<close> is a string or \<^verbatim>\<open>null\<close>, the secret a string or \<^verbatim>\<open>undefined\<close>:
  \<^verbatim>\<open>null !== undefined\<close> holds.
\<close>

definition strict_ne :: "string option \<Rightarrow> string option \<Rightarrow> bool" where
  "strict_ne token secret =
     (case (token, secret) of
        (Some t, Some k) \<Rightarrow> t \<noteq> k
      | _ \<Rightarrow> True)"

text \<open>
  The handler, with \<^verbatim>\<open>syncCalendars\<close> as a parameter: it returns a result or throws,
  and changes the state.
\<close>

definition worker_fetch ::
  "(env_rec \<Rightarrow> 'w io \<Rightarrow> (js_error + sync_result) \<times> 'w io) \<Rightarrow> http_request \<Rightarrow> env_rec
     \<Rightarrow> 'w io \<Rightarrow> worker_response \<times> 'w io" where
  "worker_fetch syncCalendars request env s =
     (if pathname request = ''/sync''
      then (let token = js_or (header_X_Sync_Token request) (param_token request)
            in if \<not> truthy (SYNC_TOKEN env) \<or> strict_ne token (SYNC_TOKEN env)
               then (\<lparr>resp_body = Text ''Unauthorized'', resp_status = 401,
                      resp_content_type = None\<rparr>, s)
               else (case syncCalendars env s of
                       (Inr result, s') \<Rightarrow>
                         (\<lparr>resp_body = Json_result result, resp_status = 200,
                           resp_content_type = Some ''application/json''\<rparr>, s')
                     | (Inl (Error message), s') \<Rightarrow>
                         (\<lparr>resp_body = Json_error ''Sync failed'', resp_status = 500,
                           resp_content_type = Some ''application/json''\<rparr>,
                          console_error (''[Calendar Sync] Error: '' @ message) s')))
      else (\<lparr>resp_body = Text ''Not found'', resp_status = 404,
             resp_content_type = None\<rparr>, s))"

section \<open>The destination calendar\<close>

text \<open>
  A model of the service behind \<^verbatim>\<open>fetch\<close>, for the claims about the state of the
  destination after a run. It holds one calendar (the calendar id and the token are
  not checked) and follows the methods the worker calls: \<^verbatim>\<open>POST\<close> on the collection
  inserts the body as a new event under an unused id; \<^verbatim>\<open>PATCH\<close> on an event has patch
  semantics, a field given in the body replaces the stored one and a field not given
  stays as it is; \<^verbatim>\<open>DELETE\<close> removes the event. A calendar that is not \<open>available\<close>
  answers 503 and applies nothing.
\<close>

record calendar =
  events :: "google_event list"
  available :: bool

definition fresh_id :: "google_event list \<Rightarrow> string" where
  "fresh_id evs = replicate (Suc (foldr (\<lambda>g n. max (length (id' g)) n) evs 0)) CHR ''e''"

definition insert_event :: "string \<Rightarrow> google_event_body \<Rightarrow> google_event" where
  "insert_event i b =
     \<lparr>summary = summary b, description = description b, location = location b,
      extendedProperties = extendedProperties b, attendees = attendees b,
      organizer = organizer b, start = start b, end = end b, id' = i\<rparr>"

definition patch_field :: "'a option \<Rightarrow> 'a option \<Rightarrow> 'a option" where
  "patch_field given stored = (case given of None \<Rightarrow> stored | Some v \<Rightarrow> Some v)"

definition patch_event :: "google_event_body \<Rightarrow> google_event \<Rightarrow> google_event" where
  "patch_event b g =
     \<lparr>summary = patch_field (summary b) (summary g),
      description = patch_field (description b) (description g),
      location = patch_field (location b) (location g),
      extendedProperties = patch_field (extendedProperties b) (extendedProperties g),
      attendees = patch_field (attendees b) (attendees g),
      organizer = patch_field (organizer b) (organizer g),
      start = patch_field (start b) (start g),
      end = patch_field (end b) (end g),
      id' = id' g\<rparr>"

definition answer :: "nat \<Rightarrow> string \<Rightarrow> js_error + response" where
  "answer code t = Inr \<lparr>ok = (200 \<le> code \<and> code \<le> 299), status = code, text = t\<rparr>"

definition google_fetch :: "calendar fetch_fn" where
  "google_fetch req cal =
     (if \<not> available cal then (answer 503 ''Service Unavailable'', cal)
      else case method req of
        POST \<Rightarrow>
          (case body req of
             None \<Rightarrow> (answer 400 ''Bad Request'', cal)
           | Some b \<Rightarrow>
               (answer 200 ''OK'',
                cal\<lparr>events := events cal @ [insert_event (fresh_id (events cal)) b]\<rparr>))
      | PATCH \<Rightarrow>
          (case (eventId req, body req) of
             (Some i, Some b) \<Rightarrow>
               if i \<in> id' ` set (events cal)
               then (answer 200 ''OK'',
                     cal\<lparr>events :=
                           map (\<lambda>g. if id' g = i then patch_event b g else g) (events cal)\<rparr>)
               else (answer 404 ''Not Found'', cal)
           | _ \<Rightarrow> (answer 400 ''Bad Request'', cal))
      | DELETE \<Rightarrow>
          (case eventId req of
             Some i \<Rightarrow>
               if i \<in> id' ` set (events cal)
               then (answer 204 [], cal\<lparr>events := filter (\<lambda>g. id' g \<noteq> i) (events cal)\<rparr>)
               else (answer 404 ''Not Found'', cal)
           | None \<Rightarrow> (answer 400 ''Bad Request'', cal)))"

section \<open>The calls a run makes\<close>

text \<open>
  The decision policy of the change detector in the words of the specification: the
  stored timestamp differs, or one of the three text fields differs from the desired one.
\<close>

definition needs_update :: "google_event \<Rightarrow> outlook_event \<Rightarrow> bool" where
  "needs_update g e \<longleftrightarrow>
     outlookLastModified_of g \<noteq> lastModified e \<or>
     summary g \<noteq> Some (outlook_event.summary e) \<or>
     description g \<noteq> Some (outlook_event.description e) \<or>
     location g \<noteq> Some (outlook_event.location e)"

definition create_request :: "string \<Rightarrow> string \<Rightarrow> google_event_body \<Rightarrow> request" where
  "create_request accessToken calId b =
     \<lparr>method = POST, calendarId = calId, eventId = None,
      authorization = accessToken, body = Some b\<rparr>"

definition update_request :: "string \<Rightarrow> string \<Rightarrow> string \<Rightarrow> google_event_body \<Rightarrow> request" where
  "update_request accessToken calId evId b =
     \<lparr>method = PATCH, calendarId = calId, eventId = Some evId,
      authorization = accessToken, body = Some b\<rparr>"

definition delete_request :: "string \<Rightarrow> string \<Rightarrow> string \<Rightarrow> request" where
  "delete_request accessToken calId evId =
     \<lparr>method = DELETE, calendarId = calId, eventId = Some evId,
      authorization = accessToken, body = None\<rparr>"

text \<open>The calls one source event leads to, and those of the deletion pass.\<close>

definition event_calls ::
  "string \<Rightarrow> string \<Rightarrow> google_event js_map \<Rightarrow> outlook_event \<Rightarrow> request list" where
  "event_calls accessToken calId byUid e =
     (case map_get byUid (uid e) of
        None \<Rightarrow> [create_request accessToken calId (googleEventBody e)]
      | Some g \<Rightarrow>
          if needs_update g e
          then [update_request accessToken calId (id' g) (googleEventBody e)]
          else [])"

text \<open>The counter one source event increments.\<close>

definition event_stats :: "google_event js_map \<Rightarrow> outlook_event \<Rightarrow> stats_rec \<Rightarrow> stats_rec" where
  "event_stats byUid e st =
     (case map_get byUid (uid e) of
        None \<Rightarrow> st\<lparr>created := created st + 1\<rparr>
      | Some g \<Rightarrow> if needs_update g e then st\<lparr>updated := updated st + 1\<rparr>
                  else st\<lparr>unchanged := unchanged st + 1\<rparr>)"

definition delete_calls ::
  "string \<Rightarrow> string \<Rightarrow> string set \<Rightarrow> google_event js_map \<Rightarrow> request list" where
  "delete_calls accessToken calId seen byUid =
     map (\<lambda>(u, g). delete_request accessToken calId (id' g))
       (filter (\<lambda>(u, g). u \<notin> seen) byUid)"

definition planned_calls ::
  "string \<Rightarrow> string \<Rightarrow> outlook_event list \<Rightarrow> google_event list \<Rightarrow> request list" where
  "planned_calls accessToken calId outlookEvents googleEvents =
     concat (map (event_calls accessToken calId (googleEventsByUid googleEvents)) outlookEvents)
     @ delete_calls accessToken calId (uid ` set outlookEvents) (googleEventsByUid googleEvents)"

text \<open>A \<^verbatim>\<open>fetch\<close> that never rejects, whatever the status of its responses.\<close>

definition resolves :: "'w fetch_fn \<Rightarrow> bool" where
  "resolves fetch \<longleftrightarrow> (\<forall>req w. \<exists>resp. fst (fetch req w) = Inr resp)"

text \<open>The state of the world after a list of calls.\<close>

definition after_calls :: "'w fetch_fn \<Rightarrow> request list \<Rightarrow> 'w \<Rightarrow> 'w" where
  "after_calls fetch reqs w = fold (\<lambda>req w. snd (fetch req w)) reqs w"

section \<open>Two runs in a row\<close>

text \<open>
  The reconciler run once on the events of the destination calendar, then again on the
  events the first run left there, with the same source events.
\<close>

definition run_twice ::
  "string \<Rightarrow> string \<Rightarrow> string \<Rightarrow> outlook_event list \<Rightarrow> calendar io
     \<Rightarrow> (js_error + sync_result) \<times> calendar io" where
  "run_twice now accessToken calId outlookEvents s =
     (case syncEvents google_fetch now accessToken calId outlookEvents (events (world s)) s of
        (Inl err, s1) \<Rightarrow> (Inl err, s1)
      | (Inr res1, s1) \<Rightarrow>
          syncEvents google_fetch now accessToken calId outlookEvents (events (world s1)) s1)"

text \<open>
  No two items of a snapshot that carry a non-empty \<^verbatim>\<open>outlookSyncUid\<close> carry the same.
\<close>

definition one_item_per_uid :: "google_event list \<Rightarrow> bool" where
  "one_item_per_uid evs \<longleftrightarrow>
     (\<forall>g\<in>set evs. \<forall>g'\<in>set evs.
        truthy (outlookSyncUid_of g) \<and> outlookSyncUid_of g = outlookSyncUid_of g' \<longrightarrow> g = g')"

text \<open>
  The invariant of the second loop against the destination calendar, after the source
  events \<open>es\<close>, from the snapshot \<open>dst\<close>: ids stay distinct, every item that carries
  the uid of a processed event needs no update, every processed event has an item, and
  the items of the other uids are those of the snapshot.
\<close>

definition settled :: "outlook_event list \<Rightarrow> google_event list \<Rightarrow> google_event list \<Rightarrow> bool" where
  "settled es dst evs \<longleftrightarrow>
     distinct (map id' evs)
     \<and> (\<forall>g\<in>set evs. \<forall>e\<in>set es. outlookSyncUid_of g = Some (uid e) \<longrightarrow> \<not> needs_update g e)
     \<and> (\<forall>e\<in>set es. \<exists>g\<in>set evs. outlookSyncUid_of g = Some (uid e))
     \<and> (\<forall>g\<in>set evs. (\<forall>e\<in>set es. outlookSyncUid_of g \<noteq> Some (uid e)) \<longrightarrow> g \<in> set dst)
     \<and> (\<forall>g\<in>set dst. (\<forall>e\<in>set es. outlookSyncUid_of g \<noteq> Some (uid e)) \<longrightarrow> g \<in> set evs)"

section \<open>Example data\<close>

text \<open>Source events and destination items for the concrete runs below.\<close>

definition standup :: outlook_event where
  "standup =
     \<lparr>uid = ''A'', summary = ''Standup'', description = [], location = ''Room 1'',
      start = ''2024-01-01T09:00:00.000Z'', end = ''2024-01-01T09:30:00.000Z'',
      isAllDay = False, lastModified = Some ''2024-01-02T00:00:00.000Z'',
      attendees = [], organizer = None\<rparr>"

definition holiday :: outlook_event where
  "holiday =
     \<lparr>uid = ''B'', summary = ''Holiday'', description = [], location = [],
      start = ''2024-06-01T00:00:00.000Z'', end = ''2024-06-02T00:00:00.000Z'',
      isAllDay = True, lastModified = Some ''2024-05-01T00:00:00.000Z'',
      attendees = [], organizer = None\<rparr>"

definition nameless :: outlook_event where
  "nameless =
     \<lparr>uid = [], summary = ''(No title)'', description = [], location = [],
      start = ''2024-01-01T09:00:00.000Z'', end = ''2024-01-01T09:30:00.000Z'',
      isAllDay = False, lastModified = Some ''2024-01-02T00:00:00.000Z'',
      attendees = [], organizer = None\<rparr>"

definition bob :: attendee_rec where
  "bob = \<lparr>email = ''bob@example.org'', displayName = ''Bob'', responseStatus = ''accepted''\<rparr>"

definition owned_by :: "string \<Rightarrow> string \<Rightarrow> extended_properties option" where
  "owned_by u t =
     Some \<lparr>private = Some \<lparr>outlookSyncUid = Some u, outlookLastModified = Some t\<rparr>\<rparr>"

definition stored_standup :: google_event where
  "stored_standup =
     \<lparr>summary = Some ''Standup'', description = Some [], location = Some ''Room 1'',
      extendedProperties = owned_by ''A'' ''2024-01-01T00:00:00.000Z'',
      attendees = Some [bob], organizer = None,
      start = Some \<lparr>date = None, dateTime = Some ''2024-01-01T09:00:00.000Z''\<rparr>,
      end = Some \<lparr>date = None, dateTime = Some ''2024-01-01T09:30:00.000Z''\<rparr>,
      id' = ''g1''\<rparr>"

definition stored_review :: google_event where
  "stored_review =
     \<lparr>summary = Some ''Review'', description = Some [], location = Some [],
      extendedProperties = owned_by ''C'' ''2024-01-01T00:00:00.000Z'',
      attendees = None, organizer = None,
      start = Some \<lparr>date = None, dateTime = Some ''2024-01-03T09:00:00.000Z''\<rparr>,
      end = Some \<lparr>date = None, dateTime = Some ''2024-01-03T09:30:00.000Z''\<rparr>,
      id' = ''g2''\<rparr>"

definition stored_review_copy :: google_event where
  "stored_review_copy =
     \<lparr>summary = Some ''Review'', description = Some [], location = Some [],
      extendedProperties = owned_by ''C'' ''2024-01-01T00:00:00.000Z'',
      attendees = None, organizer = None,
      start = Some \<lparr>date = None, dateTime = Some ''2024-01-03T09:00:00.000Z''\<rparr>,
      end = Some \<lparr>date = None, dateTime = Some ''2024-01-03T09:30:00.000Z''\<rparr>,
      id' = ''g4''\<rparr>"

definition dentist :: google_event where
  "dentist =
     \<lparr>summary = Some ''Dentist'', description = None, location = None,
      extendedProperties = None, attendees = None, organizer = None,
      start = Some \<lparr>date = None, dateTime = Some ''2024-01-04T09:00:00.000Z''\<rparr>,
      end = Some \<lparr>date = None, dateTime = Some ''2024-01-04T09:30:00.000Z''\<rparr>,
      id' = ''g3''\<rparr>"

definition calendar0 :: "google_event list" where
  "calendar0 = [stored_standup, dentist, stored_review]"

definition io0 :: "google_event list \<Rightarrow> bool \<Rightarrow> calendar io" where
  "io0 evs up = \<lparr>world = \<lparr>events = evs, available = up\<rparr>, calls = [], console = []\<rparr>"

definition sync_not_called :: "env_rec \<Rightarrow> unit io \<Rightarrow> (js_error + sync_result) \<times> unit io" where
  "sync_not_called env s = (Inl (Error ''not called''), s)"

definition sync_request :: "string option \<Rightarrow> string option \<Rightarrow> http_request" where
  "sync_request h p = \<lparr>pathname = ''/sync'', header_X_Sync_Token = h, param_token = p\<rparr>"

section \<open>What a run returns and calls\<close>

lemma do_fetch_eq:
  "do_fetch fetch req s = (fst (fetch req (world s)), s\<lparr>world := snd (fetch req (world s)), calls := calls s @ [req]\<rparr>)"
  by (simp add: do_fetch_def split: prod.splits)

lemma createGoogleEvent_Inr:
  assumes "createGoogleEvent fetch tok cal b s = (Inr u, s')"
  shows "calls s' = calls s @ [create_request tok cal b]"
    and "world s' = snd (fetch (create_request tok cal b) (world s))"
  using assms
  by (auto simp: createGoogleEvent_def do_fetch_eq create_request_def console_error_def
      split: sum.splits if_splits)

lemma updateGoogleEvent_Inr:
  assumes "updateGoogleEvent fetch tok cal i b s = (Inr u, s')"
  shows "calls s' = calls s @ [update_request tok cal i b]"
    and "world s' = snd (fetch (update_request tok cal i b) (world s))"
  using assms
  by (auto simp: updateGoogleEvent_def do_fetch_eq update_request_def console_error_def
      split: sum.splits if_splits)

lemma deleteGoogleEvent_Inr:
  assumes "deleteGoogleEvent fetch tok cal i s = (Inr u, s')"
  shows "calls s' = calls s @ [delete_request tok cal i]"
    and "world s' = snd (fetch (delete_request tok cal i) (world s))"
  using assms
  by (auto simp: deleteGoogleEvent_def do_fetch_eq delete_request_def console_error_def
      split: sum.splits if_splits)

lemma needs_update_code':
  "(outlookLastModified_of g = lastModified e \<longrightarrow> hasEventChanged g (googleEventBody e))
     = needs_update g e"
  by (auto simp: needs_update_def hasEventChanged_def googleEventBody_def)

lemma sync_outlook_event_Inr:
  assumes "sync_outlook_event fetch tok cal byUid e st seen s = (Inr (st', seen'), s')"
  shows "seen' = insert (uid e) seen"
    and "st' = event_stats byUid e st"
    and "calls s' = calls s @ event_calls tok cal byUid e"
    and "world s' = after_calls fetch (event_calls tok cal byUid e) (world s)"
proof -
  consider (new) "map_get byUid (uid e) = None"
    | (upd) g where "map_get byUid (uid e) = Some g" "needs_update g e"
    | (same) g where "map_get byUid (uid e) = Some g" "\<not> needs_update g e"
    by (cases "map_get byUid (uid e)") auto
  then have "seen' = insert (uid e) seen \<and> st' = event_stats byUid e st
      \<and> calls s' = calls s @ event_calls tok cal byUid e
      \<and> world s' = after_calls fetch (event_calls tok cal byUid e) (world s)"
  proof cases
    case new
    with assms show ?thesis
      by (auto simp: sync_outlook_event_def event_stats_def event_calls_def after_calls_def
          Let_def console_log_def split: sum.splits prod.splits
          dest: createGoogleEvent_Inr)
  next
    case upd
    with assms show ?thesis
      by (auto simp: sync_outlook_event_def event_stats_def event_calls_def after_calls_def
          Let_def console_log_def needs_update_code' split: sum.splits prod.splits
          dest: updateGoogleEvent_Inr)
  next
    case same
    with assms show ?thesis
      by (auto simp: sync_outlook_event_def event_stats_def event_calls_def after_calls_def
          Let_def needs_update_code')
  qed
  then show "seen' = insert (uid e) seen" "st' = event_stats byUid e st"
    "calls s' = calls s @ event_calls tok cal byUid e"
    "world s' = after_calls fetch (event_calls tok cal byUid e) (world s)" by auto
qed

lemma after_calls_append [simp]:
  "after_calls fetch (xs @ ys) w = after_calls fetch ys (after_calls fetch xs w)"
  by (simp add: after_calls_def)

lemma after_calls_Nil [simp]: "after_calls fetch [] w = w"
  by (simp add: after_calls_def)

lemma after_calls_Cons [simp]:
  "after_calls fetch (r # rs) w = after_calls fetch rs (snd (fetch r w))"
  by (simp add: after_calls_def)

lemma sync_outlook_events_Inr:
  assumes "sync_outlook_events fetch tok cal byUid es st seen s = (Inr (st', seen'), s')"
  shows "seen' = seen \<union> uid ` set es
    \<and> st' = fold (event_stats byUid) es st
    \<and> calls s' = calls s @ concat (map (event_calls tok cal byUid) es)
    \<and> world s' = after_calls fetch (concat (map (event_calls tok cal byUid) es)) (world s)"
  using assms
proof (induction es arbitrary: st seen s)
  case Nil
  then show ?case by simp
next
  case (Cons e es)
  from Cons.prems obtain st1 seen1 s1 where
    step: "sync_outlook_event fetch tok cal byUid e st seen s = (Inr (st1, seen1), s1)"
    and rest: "sync_outlook_events fetch tok cal byUid es st1 seen1 s1 = (Inr (st', seen'), s')"
    by (auto split: prod.splits sum.splits)
  note a = sync_outlook_event_Inr [OF step]
  note b = Cons.IH [OF rest]
  show ?case using a b by auto
qed

lemma delete_unseen_Inr:
  assumes "delete_unseen fetch tok cal seen m st s = (Inr st', s')"
  shows "st' = st\<lparr>deleted := deleted st + length (filter (\<lambda>(u, g). u \<notin> seen) m)\<rparr>
    \<and> calls s' = calls s @ delete_calls tok cal seen m
    \<and> world s' = after_calls fetch (delete_calls tok cal seen m) (world s)"
  using assms
proof (induction m arbitrary: st s)
  case Nil
  then show ?case by (simp add: delete_calls_def)
next
  case (Cons p m)
  obtain u g where p: "p = (u, g)" by (cases p)
  show ?case
  proof (cases "u \<in> seen")
    case True
    with Cons.prems p have "delete_unseen fetch tok cal seen m st s = (Inr st', s')" by simp
    from Cons.IH [OF this] True p show ?thesis by (simp add: delete_calls_def)
  next
    case False
    with Cons.prems p obtain x s1 where
      d: "deleteGoogleEvent fetch tok cal (id' g) s = (Inr x, s1)"
      and rest: "delete_unseen fetch tok cal seen m (st\<lparr>deleted := deleted st + 1\<rparr>)
          (console_log (''[Calendar Sync] Deleted: '' @ dquote
             @ (case summary g of None \<Rightarrow> ''undefined'' | Some t \<Rightarrow> t) @ dquote) s1) = (Inr st', s')"
      by (auto split: prod.splits sum.splits)
    note a = deleteGoogleEvent_Inr [OF d]
    note b = Cons.IH [OF rest]
    show ?thesis using a b False p by (simp add: delete_calls_def console_log_def)
  qed
qed

lemma syncEvents_Inr:
  assumes "syncEvents fetch now tok cal src dst s = (Inr res, s')"
  shows "stats res = (fold (event_stats (googleEventsByUid dst)) src
                        \<lparr>created = 0, updated = 0, deleted = 0, unchanged = 0\<rparr>)
             \<lparr>deleted := length (filter (\<lambda>(u, g). u \<notin> uid ` set src) (googleEventsByUid dst))\<rparr>"
    and "timestamp res = now"
    and "calls s' = calls s @ planned_calls tok cal src dst"
    and "world s' = after_calls fetch (planned_calls tok cal src dst) (world s)"
proof -
  let ?m = "googleEventsByUid dst"
  from assms obtain st1 seen1 s1 st2 where
    l1: "sync_outlook_events fetch tok cal ?m src
           \<lparr>created = 0, updated = 0, deleted = 0, unchanged = 0\<rparr> {} s = (Inr (st1, seen1), s1)"
    and l2: "delete_unseen fetch tok cal seen1 ?m st1 s1 = (Inr st2, s')"
    and res: "res = \<lparr>stats = st2, timestamp = now\<rparr>"
    by (auto simp: syncEvents_def Let_def split: prod.splits sum.splits)
  note a = sync_outlook_events_Inr [OF l1]
  note b = delete_unseen_Inr [OF l2]
  have del0: "deleted (fold (event_stats ?m) es st) = deleted st" for es st
    by (induction es arbitrary: st) (auto simp: event_stats_def split: option.splits)
  show "stats res = (fold (event_stats (googleEventsByUid dst)) src
                        \<lparr>created = 0, updated = 0, deleted = 0, unchanged = 0\<rparr>)
             \<lparr>deleted := length (filter (\<lambda>(u, g). u \<notin> uid ` set src) (googleEventsByUid dst))\<rparr>"
    using a b res del0 by simp
  show "timestamp res = now" using res by simp
  show "calls s' = calls s @ planned_calls tok cal src dst"
    using a b by (simp add: planned_calls_def)
  show "world s' = after_calls fetch (planned_calls tok cal src dst) (world s)"
    using a b by (simp add: planned_calls_def)
qed

lemma fold_event_stats:
  "created (fold (event_stats m) es st) =
     created st + length (filter (\<lambda>e. map_get m (uid e) = None) es)"
  "updated (fold (event_stats m) es st) =
     updated st + length (filter (\<lambda>e. case map_get m (uid e) of None \<Rightarrow> False | Some g \<Rightarrow> needs_update g e) es)"
  "unchanged (fold (event_stats m) es st) =
     unchanged st + length (filter (\<lambda>e. case map_get m (uid e) of None \<Rightarrow> False | Some g \<Rightarrow> \<not> needs_update g e) es)"
  "deleted (fold (event_stats m) es st) = deleted st"
  by (induction es arbitrary: st; auto simp: event_stats_def split: option.splits)+

lemma createGoogleEvent_resolves:
  "resolves fetch \<Longrightarrow> \<exists>s'. createGoogleEvent fetch tok cal b s = (Inr (), s')"
  unfolding resolves_def createGoogleEvent_def do_fetch_eq
  by (auto split: sum.splits prod.splits) (metis sum.distinct(1))

lemma updateGoogleEvent_resolves:
  "resolves fetch \<Longrightarrow> \<exists>s'. updateGoogleEvent fetch tok cal i b s = (Inr (), s')"
  unfolding resolves_def updateGoogleEvent_def do_fetch_eq
  by (auto split: sum.splits prod.splits) (metis sum.distinct(1))

lemma deleteGoogleEvent_resolves:
  "resolves fetch \<Longrightarrow> \<exists>s'. deleteGoogleEvent fetch tok cal i s = (Inr (), s')"
  unfolding resolves_def deleteGoogleEvent_def do_fetch_eq
  by (auto split: sum.splits prod.splits) (metis sum.distinct(1))

lemma sync_outlook_event_resolves:
  assumes "resolves fetch"
  shows "\<exists>acc s'. sync_outlook_event fetch tok cal byUid e st seen s = (Inr acc, s')"
proof (cases "map_get byUid (uid e)")
  case None
  from createGoogleEvent_resolves [OF assms, of tok cal "googleEventBody e" s]
  obtain s1 where "createGoogleEvent fetch tok cal (googleEventBody e) s = (Inr (), s1)" by blast
  with None show ?thesis by (simp add: sync_outlook_event_def Let_def)
next
  case (Some g)
  from updateGoogleEvent_resolves [OF assms, of tok cal "id' g" "googleEventBody e" s]
  obtain s1 where "updateGoogleEvent fetch tok cal (id' g) (googleEventBody e) s = (Inr (), s1)"
    by blast
  with Some show ?thesis by (simp add: sync_outlook_event_def Let_def)
qed

lemma sync_outlook_events_resolves:
  assumes "resolves fetch"
  shows "\<exists>acc s'. sync_outlook_events fetch tok cal byUid es st seen s = (Inr acc, s')"
proof (induction es arbitrary: st seen s)
  case Nil
  show ?case by simp
next
  case (Cons e es)
  from sync_outlook_event_resolves [OF assms, of tok cal byUid e st seen s]
  obtain st1 seen1 s1 where
    "sync_outlook_event fetch tok cal byUid e st seen s = (Inr (st1, seen1), s1)" by force
  with Cons.IH [of st1 seen1 s1] show ?case by simp
qed

lemma delete_unseen_resolves:
  assumes "resolves fetch"
  shows "\<exists>st' s'. delete_unseen fetch tok cal seen m st s = (Inr st', s')"
proof (induction m arbitrary: st s)
  case Nil
  show ?case by simp
next
  case (Cons p m)
  obtain u g where p: "p = (u, g)" by (cases p)
  from deleteGoogleEvent_resolves [OF assms, of tok cal "id' g" s]
  obtain s1 where d: "deleteGoogleEvent fetch tok cal (id' g) s = (Inr (), s1)" by blast
  show ?case
  proof (cases "u \<in> seen")
    case True
    with Cons.IH [of st s] p show ?thesis by simp
  next
    case False
    with d p Cons.IH show ?thesis by simp
  qed
qed

lemma syncEvents_resolves:
  assumes "resolves fetch"
  shows "\<exists>res s'. syncEvents fetch now tok cal src dst s = (Inr res, s')"
proof -
  from sync_outlook_events_resolves [OF assms]
  obtain st1 seen1 s1 where
    l1: "sync_outlook_events fetch tok cal (googleEventsByUid dst) src
           \<lparr>created = 0, updated = 0, deleted = 0, unchanged = 0\<rparr> {} s = (Inr (st1, seen1), s1)"
    by force
  from delete_unseen_resolves [OF assms]
  obtain st2 s2 where
    l2: "delete_unseen fetch tok cal seen1 (googleEventsByUid dst) st1 s1 = (Inr st2, s2)"
    by blast
  show ?thesis using l1 l2 by (simp add: syncEvents_def Let_def)
qed

text \<open>Whatever the outcome, the calls made are a prefix of the planned ones.\<close>

lemma createGoogleEvent_any:
  "calls (snd (createGoogleEvent fetch tok cal b s)) = calls s @ [create_request tok cal b]"
  "world (snd (createGoogleEvent fetch tok cal b s)) = snd (fetch (create_request tok cal b) (world s))"
  by (simp_all add: createGoogleEvent_def do_fetch_eq create_request_def console_error_def
      split: sum.splits)

lemma updateGoogleEvent_any:
  "calls (snd (updateGoogleEvent fetch tok cal i b s)) = calls s @ [update_request tok cal i b]"
  "world (snd (updateGoogleEvent fetch tok cal i b s)) = snd (fetch (update_request tok cal i b) (world s))"
  by (simp_all add: updateGoogleEvent_def do_fetch_eq update_request_def console_error_def
      split: sum.splits)

lemma deleteGoogleEvent_any:
  "calls (snd (deleteGoogleEvent fetch tok cal i s)) = calls s @ [delete_request tok cal i]"
  "world (snd (deleteGoogleEvent fetch tok cal i s)) = snd (fetch (delete_request tok cal i) (world s))"
  by (simp_all add: deleteGoogleEvent_def do_fetch_eq delete_request_def console_error_def
      split: sum.splits)

lemma sync_outlook_event_any:
  "calls (snd (sync_outlook_event fetch tok cal byUid e st seen s)) =
     calls s @ event_calls tok cal byUid e"
  "world (snd (sync_outlook_event fetch tok cal byUid e st seen s)) =
     after_calls fetch (event_calls tok cal byUid e) (world s)"
proof -
  consider (new) "map_get byUid (uid e) = None"
    | (upd) g where "map_get byUid (uid e) = Some g" "needs_update g e"
    | (same) g where "map_get byUid (uid e) = Some g" "\<not> needs_update g e"
    by (cases "map_get byUid (uid e)") auto
  then have "calls (snd (sync_outlook_event fetch tok cal byUid e st seen s)) =
       calls s @ event_calls tok cal byUid e
     \<and> world (snd (sync_outlook_event fetch tok cal byUid e st seen s)) =
       after_calls fetch (event_calls tok cal byUid e) (world s)"
  proof cases
    case new
    have "snd (sync_outlook_event fetch tok cal byUid e st seen s) =
        snd (createGoogleEvent fetch tok cal (googleEventBody e) s)
      \<or> (\<exists>l. snd (sync_outlook_event fetch tok cal byUid e st seen s) =
        console_log l (snd (createGoogleEvent fetch tok cal (googleEventBody e) s)))"
      using new by (auto simp: sync_outlook_event_def Let_def split: prod.splits sum.splits)
    then show ?thesis
      using new by (auto simp: createGoogleEvent_any event_calls_def console_log_def)
  next
    case upd
    have "snd (sync_outlook_event fetch tok cal byUid e st seen s) =
        snd (updateGoogleEvent fetch tok cal (id' g) (googleEventBody e) s)
      \<or> (\<exists>l. snd (sync_outlook_event fetch tok cal byUid e st seen s) =
        console_log l (snd (updateGoogleEvent fetch tok cal (id' g) (googleEventBody e) s)))"
      using upd
      by (auto simp: sync_outlook_event_def Let_def needs_update_code' split: prod.splits sum.splits)
    then show ?thesis
      using upd by (auto simp: updateGoogleEvent_any event_calls_def console_log_def)
  next
    case same
    then show ?thesis
      by (simp add: sync_outlook_event_def Let_def needs_update_code' event_calls_def)
  qed
  then show "calls (snd (sync_outlook_event fetch tok cal byUid e st seen s)) =
       calls s @ event_calls tok cal byUid e"
    "world (snd (sync_outlook_event fetch tok cal byUid e st seen s)) =
       after_calls fetch (event_calls tok cal byUid e) (world s)" by auto
qed

lemma sync_outlook_events_any:
  "\<exists>ps qs. concat (map (event_calls tok cal byUid) es) = ps @ qs
     \<and> calls (snd (sync_outlook_events fetch tok cal byUid es st seen s)) = calls s @ ps
     \<and> world (snd (sync_outlook_events fetch tok cal byUid es st seen s)) =
         after_calls fetch ps (world s)"
proof (induction es arbitrary: st seen s)
  case Nil
  show ?case by simp
next
  case (Cons e es)
  let ?b = "sync_outlook_event fetch tok cal byUid e st seen s"
  note b = sync_outlook_event_any [of fetch tok cal byUid e st seen s]
  show ?case
  proof (cases "fst ?b")
    case (Inl err)
    then have "sync_outlook_events fetch tok cal byUid (e # es) st seen s = (Inl err, snd ?b)"
      by (auto split: prod.splits)
    with b show ?thesis by auto
  next
    case (Inr acc)
    obtain st1 seen1 where acc: "acc = (st1, seen1)" by (cases acc)
    with Inr have step: "sync_outlook_events fetch tok cal byUid (e # es) st seen s =
        sync_outlook_events fetch tok cal byUid es st1 seen1 (snd ?b)"
      by (auto split: prod.splits)
    from Cons.IH [of st1 seen1 "snd ?b"] obtain ps qs where
      "concat (map (event_calls tok cal byUid) es) = ps @ qs"
      "calls (snd (sync_outlook_events fetch tok cal byUid es st1 seen1 (snd ?b))) =
         calls (snd ?b) @ ps"
      "world (snd (sync_outlook_events fetch tok cal byUid es st1 seen1 (snd ?b))) =
         after_calls fetch ps (world (snd ?b))"
      by blast
    with b step have "concat (map (event_calls tok cal byUid) (e # es)) =
          (event_calls tok cal byUid e @ ps) @ qs
      \<and> calls (snd (sync_outlook_events fetch tok cal byUid (e # es) st seen s)) =
          calls s @ (event_calls tok cal byUid e @ ps)
      \<and> world (snd (sync_outlook_events fetch tok cal byUid (e # es) st seen s)) =
          after_calls fetch (event_calls tok cal byUid e @ ps) (world s)"
      by simp
    then show ?thesis by blast
  qed
qed

lemma delete_unseen_any:
  "\<exists>ps qs. delete_calls tok cal seen m = ps @ qs
     \<and> calls (snd (delete_unseen fetch tok cal seen m st s)) = calls s @ ps
     \<and> world (snd (delete_unseen fetch tok cal seen m st s)) = after_calls fetch ps (world s)"
proof (induction m arbitrary: st s)
  case Nil
  show ?case by (simp add: delete_calls_def)
next
  case (Cons p m)
  obtain u g where p: "p = (u, g)" by (cases p)
  show ?case
  proof (cases "u \<in> seen")
    case True
    with Cons.IH [of st s] p show ?thesis by (simp add: delete_calls_def)
  next
    case False
    let ?d = "deleteGoogleEvent fetch tok cal (id' g) s"
    note d = deleteGoogleEvent_any [of fetch tok cal "id' g" s]
    have dc: "delete_calls tok cal seen (p # m) =
        delete_request tok cal (id' g) # delete_calls tok cal seen m"
      using False p by (simp add: delete_calls_def)
    show ?thesis
    proof (cases "fst ?d")
      case (Inl err)
      with False p have "delete_unseen fetch tok cal seen (p # m) st s = (Inl err, snd ?d)"
        by (auto split: prod.splits)
      with d dc have "delete_calls tok cal seen (p # m) =
            [delete_request tok cal (id' g)] @ delete_calls tok cal seen m
        \<and> calls (snd (delete_unseen fetch tok cal seen (p # m) st s)) =
            calls s @ [delete_request tok cal (id' g)]
        \<and> world (snd (delete_unseen fetch tok cal seen (p # m) st s)) =
            after_calls fetch [delete_request tok cal (id' g)] (world s)"
        by simp
      then show ?thesis by blast
    next
      case (Inr x)
      let ?s1 = "console_log (''[Calendar Sync] Deleted: '' @ dquote
                     @ (case summary g of None \<Rightarrow> ''undefined'' | Some t \<Rightarrow> t)
                     @ dquote) (snd ?d)"
      from Inr False p have step: "delete_unseen fetch tok cal seen (p # m) st s =
          delete_unseen fetch tok cal seen m (st\<lparr>deleted := deleted st + 1\<rparr>) ?s1"
        by (auto split: prod.splits)
      from Cons.IH [of "st\<lparr>deleted := deleted st + 1\<rparr>" ?s1] obtain ps qs where
        "delete_calls tok cal seen m = ps @ qs"
        "calls (snd (delete_unseen fetch tok cal seen m (st\<lparr>deleted := deleted st + 1\<rparr>) ?s1)) =
           calls ?s1 @ ps"
        "world (snd (delete_unseen fetch tok cal seen m (st\<lparr>deleted := deleted st + 1\<rparr>) ?s1)) =
           after_calls fetch ps (world ?s1)"
        by blast
      with d dc step have "delete_calls tok cal seen (p # m) =
            (delete_request tok cal (id' g) # ps) @ qs
        \<and> calls (snd (delete_unseen fetch tok cal seen (p # m) st s)) =
            calls s @ (delete_request tok cal (id' g) # ps)
        \<and> world (snd (delete_unseen fetch tok cal seen (p # m) st s)) =
            after_calls fetch (delete_request tok cal (id' g) # ps) (world s)"
        by (simp add: console_log_def)
      then show ?thesis by blast
    qed
  qed
qed

lemma syncEvents_any:
  "\<exists>ps qs. planned_calls tok cal src dst = ps @ qs
     \<and> calls (snd (syncEvents fetch now tok cal src dst s)) = calls s @ ps
     \<and> world (snd (syncEvents fetch now tok cal src dst s)) = after_calls fetch ps (world s)"
proof -
  let ?m = "googleEventsByUid dst"
  let ?z = "\<lparr>created = 0, updated = 0, deleted = 0, unchanged = 0\<rparr>"
  let ?l = "sync_outlook_events fetch tok cal ?m src ?z {} s"
  show ?thesis
  proof (cases "fst ?l")
    case (Inl err)
    then have run: "syncEvents fetch now tok cal src dst s = (Inl err, snd ?l)"
      by (auto simp: syncEvents_def Let_def split: prod.splits)
    from sync_outlook_events_any [of tok cal ?m src fetch ?z "{}" s] obtain ps qs where
      "concat (map (event_calls tok cal ?m) src) = ps @ qs"
      "calls (snd ?l) = calls s @ ps" "world (snd ?l) = after_calls fetch ps (world s)"
      by blast
    with run have "planned_calls tok cal src dst =
          ps @ (qs @ delete_calls tok cal (uid ` set src) ?m)
      \<and> calls (snd (syncEvents fetch now tok cal src dst s)) = calls s @ ps
      \<and> world (snd (syncEvents fetch now tok cal src dst s)) = after_calls fetch ps (world s)"
      by (simp add: planned_calls_def)
    then show ?thesis by blast
  next
    case (Inr acc)
    obtain st1 seen1 where acc: "acc = (st1, seen1)" by (cases acc)
    with Inr obtain s1 where l: "?l = (Inr (st1, seen1), s1)" by (cases ?l) auto
    note a = sync_outlook_events_Inr [OF l]
    let ?d = "delete_unseen fetch tok cal seen1 ?m st1 s1"
    have run: "snd (syncEvents fetch now tok cal src dst s) = snd ?d"
      by (simp add: syncEvents_def Let_def l split: prod.splits sum.splits)
    from delete_unseen_any [of tok cal seen1 ?m fetch st1 s1] obtain ps qs where
      "delete_calls tok cal seen1 ?m = ps @ qs"
      "calls (snd ?d) = calls s1 @ ps" "world (snd ?d) = after_calls fetch ps (world s1)"
      by blast
    with a run have "planned_calls tok cal src dst =
          (concat (map (event_calls tok cal ?m) src) @ ps) @ qs
      \<and> calls (snd (syncEvents fetch now tok cal src dst s)) =
          calls s @ (concat (map (event_calls tok cal ?m) src) @ ps)
      \<and> world (snd (syncEvents fetch now tok cal src dst s)) =
          after_calls fetch (concat (map (event_calls tok cal ?m) src) @ ps) (world s)"
      by (simp add: planned_calls_def)
    then show ?thesis by blast
  qed
qed

subsection \<open>The index of the destination\<close>

lemma map_set_keys: "fst ` set (map_set m k v) = insert k (fst ` set m)"
  by (induction m k v rule: map_set.induct) (simp_all add: insert_commute)

lemma map_set_distinct: "distinct (map fst m) \<Longrightarrow> distinct (map fst (map_set m k v))"
  by (induction m k v rule: map_set.induct) (auto simp: map_set_keys)

lemma map_set_set: "set (map_set m k v) \<subseteq> insert (k, v) (set m)"
  by (induction m k v rule: map_set.induct) auto

lemma map_of_map_set: "map_of (map_set m k v) = (map_of m)(k \<mapsto> v)"
  by (induction m k v rule: map_set.induct) auto

lemma find_append:
  "find P (xs @ ys) = (case find P xs of None \<Rightarrow> find P ys | Some x \<Rightarrow> Some x)"
  by (induction xs) auto

lemma index_events_distinct:
  "distinct (map fst m) \<Longrightarrow> distinct (map fst (index_events evs m))"
  by (induction evs arbitrary: m) (auto simp: map_set_distinct split: option.splits)

lemma index_events_set:
  "(u, g) \<in> set (index_events evs m) \<Longrightarrow>
     (u, g) \<in> set m \<or> (g \<in> set evs \<and> outlookSyncUid_of g = Some u \<and> u \<noteq> [])"
proof (induction evs arbitrary: m)
  case Nil
  then show ?case by simp
next
  case (Cons ev evs)
  let ?m = "case outlookSyncUid_of ev of None \<Rightarrow> m
            | Some u \<Rightarrow> if u \<noteq> [] then map_set m u ev else m"
  from Cons.prems have "(u, g) \<in> set (index_events evs ?m)" by simp
  from Cons.IH [OF this] show ?case
    using map_set_set [of m _ ev] by (fastforce split: option.splits if_splits)
qed

lemma index_events_get:
  "map_of (index_events evs m) u =
     (case find (\<lambda>g. outlookSyncUid_of g = Some u \<and> u \<noteq> []) (rev evs) of
        None \<Rightarrow> map_of m u
      | Some g \<Rightarrow> Some g)"
proof (induction evs arbitrary: m)
  case Nil
  show ?case by simp
next
  case (Cons ev evs)
  show ?case
    by (auto simp: Cons.IH map_of_map_set find_append split: option.splits)
qed

lemma googleEventsByUid_distinct: "distinct (map fst (googleEventsByUid dst))"
  by (simp add: googleEventsByUid_def index_events_distinct)

lemma googleEventsByUid_entry:
  "(u, g) \<in> set (googleEventsByUid dst) \<Longrightarrow>
     g \<in> set dst \<and> outlookSyncUid_of g = Some u \<and> u \<noteq> []"
  using index_events_set [of u g dst "[]"] by (simp add: googleEventsByUid_def)

lemma map_get_entry:
  "map_get (googleEventsByUid dst) u = Some g \<longleftrightarrow> (u, g) \<in> set (googleEventsByUid dst)"
  by (simp add: map_get_def googleEventsByUid_distinct)

lemma map_get_find:
  "map_get (googleEventsByUid dst) u =
     find (\<lambda>g. outlookSyncUid_of g = Some u \<and> u \<noteq> []) (rev dst)"
  by (simp add: map_get_def googleEventsByUid_def index_events_get split: option.splits)

lemma index_none:
  assumes "map_get (googleEventsByUid dst) u = None" and "u \<noteq> []" and "g \<in> set dst"
  shows "outlookSyncUid_of g \<noteq> Some u"
  using assms by (auto simp: map_get_find find_None_iff)

lemma index_some:
  assumes "map_get (googleEventsByUid dst) u = Some g"
  shows "g \<in> set dst" and "outlookSyncUid_of g = Some u" and "u \<noteq> []"
  using assms googleEventsByUid_entry [of u g dst] by (simp_all add: map_get_entry)

lemma one_item_per_uidD:
  "one_item_per_uid dst \<Longrightarrow> g \<in> set dst \<Longrightarrow> g' \<in> set dst \<Longrightarrow> outlookSyncUid_of g = Some u
     \<Longrightarrow> outlookSyncUid_of g' = Some u \<Longrightarrow> u \<noteq> [] \<Longrightarrow> g = g'"
  unfolding one_item_per_uid_def truthy_def by (auto split: option.splits)

section \<open>The claims on a single run\<close>

lemma event_calls_method:
  "r \<in> set (event_calls tok cal m e) \<Longrightarrow> method r = POST \<or> method r = PATCH"
  by (auto simp: event_calls_def create_request_def update_request_def split: option.splits if_splits)

lemma filter_concat_event_calls:
  "filter (\<lambda>r. method r = PATCH) (concat (map (event_calls tok cal m) es)) =
     concat (map (\<lambda>e. case map_get m (uid e) of
                         None \<Rightarrow> []
                       | Some g \<Rightarrow> if needs_update g e
                                   then [update_request tok cal (id' g) (googleEventBody e)]
                                   else []) es)"
  by (induction es)
     (auto simp: event_calls_def create_request_def update_request_def split: option.splits)

lemma filter_post_event_calls:
  "filter (\<lambda>r. method r = POST) (concat (map (event_calls tok cal m) es)) =
     concat (map (\<lambda>e. case map_get m (uid e) of
                         None \<Rightarrow> [create_request tok cal (googleEventBody e)]
                       | Some g \<Rightarrow> []) es)"
  by (induction es)
     (auto simp: event_calls_def create_request_def update_request_def split: option.splits)

lemma filter_delete_event_calls:
  "filter (\<lambda>r. method r = DELETE) (concat (map (event_calls tok cal m) es)) = []"
  by (induction es)
     (auto simp: event_calls_def create_request_def update_request_def split: option.splits)

lemma filter_delete_calls:
  "filter (\<lambda>r. method r = DELETE) (delete_calls tok cal seen m) = delete_calls tok cal seen m"
  "filter (\<lambda>r. method r = PATCH) (delete_calls tok cal seen m) = []"
  "filter (\<lambda>r. method r = POST) (delete_calls tok cal seen m) = []"
  by (auto simp: delete_calls_def delete_request_def filter_empty_conv)

lemma length_concat_option:
  "length (concat (map (\<lambda>e. case f e of None \<Rightarrow> [] | Some g \<Rightarrow> if P g e then [h g e] else []) es))
     = length (filter (\<lambda>e. case f e of None \<Rightarrow> False | Some g \<Rightarrow> P g e) es)"
  by (induction es) (auto split: option.splits)

lemma length_concat_none:
  "length (concat (map (\<lambda>e. case f e of None \<Rightarrow> [h e] | Some g \<Rightarrow> []) es))
     = length (filter (\<lambda>e. f e = None) es)"
  by (induction es) (auto split: option.splits)

lemma three_way_count:
  "length (filter (\<lambda>e. f e = None) es)
   + length (filter (\<lambda>e. case f e of None \<Rightarrow> False | Some g \<Rightarrow> P g e) es)
   + length (filter (\<lambda>e. case f e of None \<Rightarrow> False | Some g \<Rightarrow> \<not> P g e) es) = length es"
  by (induction es) (auto split: option.splits)

text \<open>
  Claim C10 (counter-sum invariant). In every run that returns, each source event has
  incremented exactly one of \<open>created\<close>, \<open>updated\<close>, \<open>unchanged\<close>: their sum is the
  length of the source list, and \<open>deleted\<close> is the number of entries of the index whose
  uid is not among the source uids. A run returns whenever \<^verbatim>\<open>fetch\<close> never rejects.
\<close>

theorem counter_sum_invariant:
  "(syncEvents fetch now tok cal src dst s = (Inr res, s') \<longrightarrow>
       created (stats res) + updated (stats res) + unchanged (stats res) = length src
     \<and> deleted (stats res) =
         length (filter (\<lambda>(u, g). u \<notin> uid ` set src) (googleEventsByUid dst)))
   \<and> (resolves fetch \<longrightarrow> (\<exists>res s'. syncEvents fetch now tok cal src dst s = (Inr res, s')))"
proof (intro conjI impI)
  assume run: "syncEvents fetch now tok cal src dst s = (Inr res, s')"
  note st = syncEvents_Inr(1) [OF run]
  show "created (stats res) + updated (stats res) + unchanged (stats res) = length src"
    using three_way_count [of "\<lambda>e. map_get (googleEventsByUid dst) (uid e)" src needs_update]
    by (simp add: st fold_event_stats)
  show "deleted (stats res) =
         length (filter (\<lambda>(u, g). u \<notin> uid ` set src) (googleEventsByUid dst))"
    by (simp add: st)
next
  assume "resolves fetch"
  then show "\<exists>res s'. syncEvents fetch now tok cal src dst s = (Inr res, s')"
    by (rule syncEvents_resolves)
qed

text \<open>
  Claim C5 (decision policy of the change detector). For a source event with an entry
  in the index, the loop body issues the update exactly when the stored timestamp differs
  from the event's \<open>lastModified\<close> or one of summary, description, location differs
  (\<open>needs_update\<close>); otherwise it calls nothing, leaves the state as it is and increments
  \<open>unchanged\<close>. Over a run, the \<^verbatim>\<open>PATCH\<close> calls are those of the events with an entry
  that need an update, in source order, and the two counters count the two kinds. A run
  returns whenever \<^verbatim>\<open>fetch\<close> never rejects.
\<close>

theorem change_detector_policy:
  "(map_get byUid (uid e) = Some g \<longrightarrow>
      (if needs_update g e
       then calls (snd (sync_outlook_event fetch tok cal byUid e st seen t)) =
              calls t @ [update_request tok cal (id' g) (googleEventBody e)]
            \<and> (\<forall>st1 seen1 s1.
                 sync_outlook_event fetch tok cal byUid e st seen t = (Inr (st1, seen1), s1) \<longrightarrow>
                   st1 = st\<lparr>updated := updated st + 1\<rparr>)
       else sync_outlook_event fetch tok cal byUid e st seen t =
              (Inr (st\<lparr>unchanged := unchanged st + 1\<rparr>, insert (uid e) seen), t)))
   \<and> (syncEvents fetch now tok cal src dst s = (Inr res, s') \<longrightarrow>
        filter (\<lambda>r. method r = PATCH) (drop (length (calls s)) (calls s')) =
          concat (map (\<lambda>e. case map_get (googleEventsByUid dst) (uid e) of
                              None \<Rightarrow> []
                            | Some g \<Rightarrow>
                                if needs_update g e
                                then [update_request tok cal (id' g) (googleEventBody e)]
                                else []) src)
        \<and> updated (stats res) =
            length (filter (\<lambda>e. case map_get (googleEventsByUid dst) (uid e) of
                                   None \<Rightarrow> False | Some g \<Rightarrow> needs_update g e) src)
        \<and> unchanged (stats res) =
            length (filter (\<lambda>e. case map_get (googleEventsByUid dst) (uid e) of
                                   None \<Rightarrow> False | Some g \<Rightarrow> \<not> needs_update g e) src))
   \<and> (resolves fetch \<longrightarrow> (\<exists>res s'. syncEvents fetch now tok cal src dst s = (Inr res, s')))"
proof (intro conjI impI)
  assume g: "map_get byUid (uid e) = Some g"
  show "if needs_update g e
       then calls (snd (sync_outlook_event fetch tok cal byUid e st seen t)) =
              calls t @ [update_request tok cal (id' g) (googleEventBody e)]
            \<and> (\<forall>st1 seen1 s1.
                 sync_outlook_event fetch tok cal byUid e st seen t = (Inr (st1, seen1), s1) \<longrightarrow>
                   st1 = st\<lparr>updated := updated st + 1\<rparr>)
       else sync_outlook_event fetch tok cal byUid e st seen t =
              (Inr (st\<lparr>unchanged := unchanged st + 1\<rparr>, insert (uid e) seen), t)"
  proof (cases "needs_update g e")
    case True
    have "st1 = st\<lparr>updated := updated st + 1\<rparr>"
      if "sync_outlook_event fetch tok cal byUid e st seen t = (Inr (st1, seen1), s1)"
      for st1 seen1 s1
      using sync_outlook_event_Inr(2) [OF that] g True by (simp add: event_stats_def)
    moreover
    have "calls (snd (sync_outlook_event fetch tok cal byUid e st seen t)) =
            calls (snd (updateGoogleEvent fetch tok cal (id' g) (googleEventBody e) t))"
      using g True
      by (simp add: sync_outlook_event_def Let_def needs_update_code' console_log_def
          split: prod.splits sum.splits)
    ultimately show ?thesis using True by (simp add: updateGoogleEvent_any)
  next
    case False
    with g show ?thesis
      by (simp add: sync_outlook_event_def Let_def needs_update_code')
  qed
next
  assume run: "syncEvents fetch now tok cal src dst s = (Inr res, s')"
  note st = syncEvents_Inr(1) [OF run] and c = syncEvents_Inr(3) [OF run]
  show "filter (\<lambda>r. method r = PATCH) (drop (length (calls s)) (calls s')) =
          concat (map (\<lambda>e. case map_get (googleEventsByUid dst) (uid e) of
                              None \<Rightarrow> []
                            | Some g \<Rightarrow>
                                if needs_update g e
                                then [update_request tok cal (id' g) (googleEventBody e)]
                                else []) src)"
    by (simp add: c planned_calls_def filter_concat_event_calls filter_delete_calls)
  show "updated (stats res) =
            length (filter (\<lambda>e. case map_get (googleEventsByUid dst) (uid e) of
                                   None \<Rightarrow> False | Some g \<Rightarrow> needs_update g e) src)"
    by (simp add: st fold_event_stats)
  show "unchanged (stats res) =
            length (filter (\<lambda>e. case map_get (googleEventsByUid dst) (uid e) of
                                   None \<Rightarrow> False | Some g \<Rightarrow> \<not> needs_update g e) src)"
    by (simp add: st fold_event_stats)
next
  assume "resolves fetch"
  then show "\<exists>res s'. syncEvents fetch now tok cal src dst s = (Inr res, s')"
    by (rule syncEvents_resolves)
qed

text \<open>
  Claim C6 (delete on disappearance). The \<^verbatim>\<open>DELETE\<close> calls of a run are, in the order
  of the index, one for each entry whose uid is not among the source uids, against the
  id of its item, and \<open>deleted\<close> is their number; each uid has one entry; when the ids
  of the snapshot are distinct the call against such an item occurs exactly once among
  the calls of the run; with an empty source every entry is deleted, which is every
  item that carries a non-empty uid when no two of them carry the same. A run returns
  whenever \<^verbatim>\<open>fetch\<close> never rejects.
\<close>

lemma count_list_map_unique:
  "distinct xs \<Longrightarrow> x \<in> set xs \<Longrightarrow> (\<forall>y\<in>set xs. f y = f x \<longrightarrow> y = x)
     \<Longrightarrow> count_list (map f xs) (f x) = 1"
proof (induction xs)
  case Nil
  then show ?case by simp
next
  case (Cons a xs)
  show ?case
  proof (cases "a = x")
    case True
    with Cons.prems have "\<forall>y\<in>set xs. f y \<noteq> f x" by auto
    then have "count_list (map f xs) (f x) = 0" by (auto simp: count_list_0_iff)
    with True show ?thesis by simp
  next
    case False
    with Cons show ?thesis by auto
  qed
qed

lemma count_list_append_nomem:
  "y \<notin> set xs \<Longrightarrow> count_list (xs @ ys) y = count_list ys y"
  by (simp add: count_list_0_iff)

lemma distinct_ids_eq:
  "distinct (map id' dst) \<Longrightarrow> g \<in> set dst \<Longrightarrow> g' \<in> set dst \<Longrightarrow> id' g = id' g' \<Longrightarrow> g = g'"
  by (meson distinct_map inj_onD)

theorem delete_on_disappearance:
  "(syncEvents fetch now tok cal src dst s = (Inr res, s') \<longrightarrow>
     filter (\<lambda>r. method r = DELETE) (drop (length (calls s)) (calls s')) =
       map (\<lambda>(u, g). delete_request tok cal (id' g))
         (filter (\<lambda>(u, g). u \<notin> uid ` set src) (googleEventsByUid dst))
   \<and> deleted (stats res) =
       length (filter (\<lambda>(u, g). u \<notin> uid ` set src) (googleEventsByUid dst))
   \<and> distinct (map fst (googleEventsByUid dst))
   \<and> (distinct (map id' dst) \<longrightarrow>
        (\<forall>(u, g) \<in> set (googleEventsByUid dst). u \<notin> uid ` set src \<longrightarrow>
           count_list (drop (length (calls s)) (calls s')) (delete_request tok cal (id' g)) = 1))
   \<and> (src = [] \<longrightarrow>
        filter (\<lambda>r. method r = DELETE) (drop (length (calls s)) (calls s')) =
          map (\<lambda>(u, g). delete_request tok cal (id' g)) (googleEventsByUid dst)
        \<and> (one_item_per_uid dst \<longrightarrow>
             (\<forall>g\<in>set dst. truthy (outlookSyncUid_of g) \<longrightarrow>
                delete_request tok cal (id' g) \<in> set (drop (length (calls s)) (calls s'))))))
   \<and> (resolves fetch \<longrightarrow> (\<exists>res s'. syncEvents fetch now tok cal src dst s = (Inr res, s')))"
proof (rule conjI, rule impI)
  let ?m = "googleEventsByUid dst"
  let ?gone = "filter (\<lambda>(u, g). u \<notin> uid ` set src) ?m"
  let ?del = "\<lambda>(u, g). delete_request tok cal (id' g)"
  assume run: "syncEvents fetch now tok cal src dst s = (Inr res, s')"
  note st = syncEvents_Inr(1) [OF run] and c = syncEvents_Inr(3) [OF run]
  have new: "drop (length (calls s)) (calls s') =
      concat (map (event_calls tok cal ?m) src) @ map ?del ?gone"
    by (simp add: c planned_calls_def delete_calls_def)
  have 1: "filter (\<lambda>r. method r = DELETE) (drop (length (calls s)) (calls s')) = map ?del ?gone"
    using filter_delete_calls(1) [of tok cal "uid ` set src" ?m]
    by (simp add: c planned_calls_def filter_delete_event_calls) (simp add: delete_calls_def)
  have 2: "deleted (stats res) = length ?gone" by (simp add: st)
  have 3: "distinct (map fst ?m)" by (rule googleEventsByUid_distinct)
  have 4: "count_list (drop (length (calls s)) (calls s')) (delete_request tok cal (id' g)) = 1"
    if ids: "distinct (map id' dst)" and ent: "(u, g) \<in> set ?m" and gone: "u \<notin> uid ` set src"
    for u g
  proof -
    have d: "distinct ?gone" using 3 by (simp add: distinct_map)
    have mem: "(u, g) \<in> set ?gone" using ent gone by simp
    have uniq: "\<forall>y\<in>set ?gone. ?del y = ?del (u, g) \<longrightarrow> y = (u, g)"
    proof (intro ballI impI)
      fix y assume y: "y \<in> set ?gone" and eq: "?del y = ?del (u, g)"
      obtain u' g' where y': "y = (u', g')" by (cases y)
      from y y' have e': "(u', g') \<in> set ?m" by simp
      from eq y' have "id' g' = id' g" by (simp add: delete_request_def)
      with googleEventsByUid_entry [OF e'] googleEventsByUid_entry [OF ent] ids
      have "g' = g" by (metis distinct_ids_eq)
      with googleEventsByUid_entry [OF e'] googleEventsByUid_entry [OF ent]
      have "u' = u" by simp
      with \<open>g' = g\<close> y' show "y = (u, g)" by simp
    qed
    have "delete_request tok cal (id' g) \<notin> set (concat (map (event_calls tok cal ?m) src))"
      using event_calls_method [of "delete_request tok cal (id' g)" tok cal ?m]
      by (auto simp: delete_request_def)
    then have "count_list (drop (length (calls s)) (calls s')) (delete_request tok cal (id' g))
        = count_list (map ?del ?gone) (?del (u, g))"
      unfolding new by (simp add: count_list_append_nomem)
    also have "\<dots> = 1" by (rule count_list_map_unique [OF d mem uniq])
    finally show ?thesis .
  qed
  have 5: "filter (\<lambda>r. method r = DELETE) (drop (length (calls s)) (calls s')) = map ?del ?m"
    if "src = []"
    using 1 that by simp
  have 6: "delete_request tok cal (id' g) \<in> set (drop (length (calls s)) (calls s'))"
    if "src = []" and one: "one_item_per_uid dst" and g: "g \<in> set dst"
      and t: "truthy (outlookSyncUid_of g)" for g
  proof -
    from t obtain u where u: "outlookSyncUid_of g = Some u" "u \<noteq> []"
      by (auto simp: truthy_def split: option.splits)
    have "map_get ?m u \<noteq> None" using index_none [of dst u g] u g by auto
    then obtain g' where g': "map_get ?m u = Some g'" by auto
    note i = index_some [OF g']
    from one_item_per_uidD [OF one g i(1) u(1) i(2) u(2)] g' have "(u, g) \<in> set ?m"
      by (simp add: map_get_entry)
    then have "delete_request tok cal (id' g) \<in> set (map ?del ?m)" by force
    with 5 [OF \<open>src = []\<close>] have "delete_request tok cal (id' g) \<in>
        set (filter (\<lambda>r. method r = DELETE) (drop (length (calls s)) (calls s')))" by simp
    then show ?thesis by simp
  qed
  from 1 2 3 4 5 6 show "filter (\<lambda>r. method r = DELETE) (drop (length (calls s)) (calls s')) =
       map ?del ?gone
   \<and> deleted (stats res) = length ?gone
   \<and> distinct (map fst ?m)
   \<and> (distinct (map id' dst) \<longrightarrow>
        (\<forall>(u, g) \<in> set ?m. u \<notin> uid ` set src \<longrightarrow>
           count_list (drop (length (calls s)) (calls s')) (delete_request tok cal (id' g)) = 1))
   \<and> (src = [] \<longrightarrow>
        filter (\<lambda>r. method r = DELETE) (drop (length (calls s)) (calls s')) = map ?del ?m
        \<and> (one_item_per_uid dst \<longrightarrow>
             (\<forall>g\<in>set dst. truthy (outlookSyncUid_of g) \<longrightarrow>
                delete_request tok cal (id' g) \<in> set (drop (length (calls s)) (calls s')))))"
    by blast
next
  show "resolves fetch \<longrightarrow> (\<exists>res s'. syncEvents fetch now tok cal src dst s = (Inr res, s'))"
    using syncEvents_resolves by blast
qed

lemma first_split: "first (split s c) = Some (takeWhile (\<lambda>x. x \<noteq> c) s)"
  by (induction s) (auto simp: first_def split: list.splits)

lemma takeWhile_prefix: "c \<notin> set d \<Longrightarrow> takeWhile (\<lambda>x. x \<noteq> c) (d @ c # t) = d"
  by (induction d) auto

text \<open>
  Claim C8 (all-day encoding). For an all-day source event the desired representation
  has date-only \<open>start\<close> and \<open>end\<close>: the part of the source string before its first
  \<open>T\<close>, with no \<open>T\<close> in it and no \<open>dateTime\<close>. For a timed event both are \<open>dateTime\<close>
  fields with the source string.
\<close>

theorem all_day_encoding:
  "(isAllDay e \<longrightarrow>
      start (googleEventBody e) =
        Some \<lparr>date = Some (takeWhile (\<lambda>c. c \<noteq> CHR ''T'') (outlook_event.start e)), dateTime = None\<rparr>
    \<and> end (googleEventBody e) =
        Some \<lparr>date = Some (takeWhile (\<lambda>c. c \<noteq> CHR ''T'') (outlook_event.end e)), dateTime = None\<rparr>
    \<and> (\<forall>d t. outlook_event.start e = d @ CHR ''T'' # t \<and> CHR ''T'' \<notin> set d \<longrightarrow>
          start (googleEventBody e) = Some \<lparr>date = Some d, dateTime = None\<rparr>)
    \<and> (\<forall>d t. outlook_event.end e = d @ CHR ''T'' # t \<and> CHR ''T'' \<notin> set d \<longrightarrow>
          end (googleEventBody e) = Some \<lparr>date = Some d, dateTime = None\<rparr>)
    \<and> (\<forall>x d. (start (googleEventBody e) = Some x \<or> end (googleEventBody e) = Some x)
          \<and> date x = Some d \<longrightarrow> CHR ''T'' \<notin> set d))
   \<and> (\<not> isAllDay e \<longrightarrow>
      start (googleEventBody e) = Some \<lparr>date = None, dateTime = Some (outlook_event.start e)\<rparr>
    \<and> end (googleEventBody e) = Some \<lparr>date = None, dateTime = Some (outlook_event.end e)\<rparr>)"
proof -
  have nt: "CHR ''T'' \<notin> set (takeWhile (\<lambda>c. c \<noteq> CHR ''T'') s)" for s
    by (auto dest: set_takeWhileD)
  show ?thesis
    using nt by (auto simp: googleEventBody_def first_split takeWhile_prefix)
qed

theorem all_day_encoding_witness:
  "isAllDay holiday \<and> outlook_event.start holiday = ''2024-06-01T00:00:00.000Z''
   \<and> start (googleEventBody holiday) = Some \<lparr>date = Some ''2024-06-01'', dateTime = None\<rparr>
   \<and> end (googleEventBody holiday) = Some \<lparr>date = Some ''2024-06-02'', dateTime = None\<rparr>
   \<and> \<not> isAllDay standup
   \<and> start (googleEventBody standup) =
       Some \<lparr>date = None, dateTime = Some ''2024-01-01T09:00:00.000Z''\<rparr>"
  using all_day_encoding [of holiday] all_day_encoding [of standup]
  by (simp add: holiday_def standup_def)

text \<open>
  Claim C9 (fail-closed manual trigger). On the path \<^verbatim>\<open>/sync\<close>, when \<^verbatim>\<open>SYNC_TOKEN\<close> is
  unset or empty, the answer is 401 whatever token is supplied, and \<^verbatim>\<open>syncCalendars\<close>
  is not called: the state is returned as it was.
\<close>

theorem fail_closed_manual_trigger:
  "pathname request = ''/sync'' \<Longrightarrow> SYNC_TOKEN env = None \<or> SYNC_TOKEN env = Some [] \<Longrightarrow>
     worker_fetch syncCalendars request env s =
       (\<lparr>resp_body = Text ''Unauthorized'', resp_status = 401, resp_content_type = None\<rparr>, s)"
  by (auto simp: worker_fetch_def truthy_def)

theorem fail_closed_manual_trigger_witness:
  "pathname (sync_request None (Some [])) = ''/sync''
   \<and> SYNC_TOKEN \<lparr>SYNC_TOKEN = Some []\<rparr> = Some []
   \<and> worker_fetch sync_not_called (sync_request None (Some [])) \<lparr>SYNC_TOKEN = Some []\<rparr>
        \<lparr>world = (), calls = [], console = []\<rparr> =
       (\<lparr>resp_body = Text ''Unauthorized'', resp_status = 401, resp_content_type = None\<rparr>,
        \<lparr>world = (), calls = [], console = []\<rparr>)"
  using fail_closed_manual_trigger [of "sync_request None (Some [])" "\<lparr>SYNC_TOKEN = Some []\<rparr>"
      sync_not_called "\<lparr>world = (), calls = [], console = []\<rparr>"]
  by (simp add: sync_request_def)

text \<open>
  Claim C4 (authentication failures look like an unknown path). It fails: a request to
  \<^verbatim>\<open>/sync\<close> without a token is answered 401 \<open>Unauthorized\<close>, a request to another path
  404 \<open>Not found\<close>.
\<close>

theorem auth_failure_indistinguishable_counterexample:
  "fst (worker_fetch sync_not_called (sync_request None None) \<lparr>SYNC_TOKEN = Some ''secret''\<rparr>
          \<lparr>world = (), calls = [], console = []\<rparr>)
   \<noteq> fst (worker_fetch sync_not_called
          \<lparr>pathname = ''/nothing'', header_X_Sync_Token = None, param_token = None\<rparr>
          \<lparr>SYNC_TOKEN = Some ''secret''\<rparr> \<lparr>world = (), calls = [], console = []\<rparr>)"
  by (simp add: worker_fetch_def sync_request_def truthy_def js_or_def strict_ne_def)

text \<open>
  Claim C4, amended. A request to \<^verbatim>\<open>/sync\<close> whose token is missing or differs from
  the secret, or with no secret configured, is answered with status 401 and body
  \<open>Unauthorized\<close>; a request to any other path with status 404 and body \<open>Not found\<close>.
\<close>

theorem auth_failure_is_401:
  "(pathname request = ''/sync''
      \<and> (js_or (header_X_Sync_Token request) (param_token request) \<noteq> SYNC_TOKEN env
          \<or> SYNC_TOKEN env = None \<or> SYNC_TOKEN env = Some []) \<longrightarrow>
      worker_fetch syncCalendars request env s =
        (\<lparr>resp_body = Text ''Unauthorized'', resp_status = 401, resp_content_type = None\<rparr>, s))
   \<and> (pathname request \<noteq> ''/sync'' \<longrightarrow>
      worker_fetch syncCalendars request env s =
        (\<lparr>resp_body = Text ''Not found'', resp_status = 404, resp_content_type = None\<rparr>, s))"
  by (auto simp: worker_fetch_def truthy_def strict_ne_def Let_def split: option.splits)

theorem auth_failure_is_401_witness:
  "pathname (sync_request (Some ''guess'') None) = ''/sync''
   \<and> js_or (header_X_Sync_Token (sync_request (Some ''guess'') None))
        (param_token (sync_request (Some ''guess'') None)) \<noteq> Some ''secret''
   \<and> fst (worker_fetch sync_not_called (sync_request (Some ''guess'') None)
        \<lparr>SYNC_TOKEN = Some ''secret''\<rparr> \<lparr>world = (), calls = [], console = []\<rparr>) =
       \<lparr>resp_body = Text ''Unauthorized'', resp_status = 401, resp_content_type = None\<rparr>
   \<and> fst (worker_fetch sync_not_called
          \<lparr>pathname = ''/nothing'', header_X_Sync_Token = None, param_token = None\<rparr>
          \<lparr>SYNC_TOKEN = Some ''secret''\<rparr> \<lparr>world = (), calls = [], console = []\<rparr>) =
       \<lparr>resp_body = Text ''Not found'', resp_status = 404, resp_content_type = None\<rparr>"
  using auth_failure_is_401 [of "sync_request (Some ''guess'') None" "\<lparr>SYNC_TOKEN = Some ''secret''\<rparr>"
      sync_not_called "\<lparr>world = (), calls = [], console = []\<rparr>"]
    auth_failure_is_401 [of "\<lparr>pathname = ''/nothing'', header_X_Sync_Token = None, param_token = None\<rparr>"
      "\<lparr>SYNC_TOKEN = Some ''secret''\<rparr>"
      sync_not_called "\<lparr>world = (), calls = [], console = []\<rparr>"]
  by (simp add: sync_request_def js_or_def truthy_def)

lemma google_fetch_resolves: "resolves google_fetch"
  by (auto simp: resolves_def google_fetch_def answer_def split: http_method.splits option.splits)

lemma google_fetch_keeps:
  "eventId r \<noteq> Some (id' f) \<Longrightarrow> f \<in> set (events w) \<Longrightarrow> f \<in> set (events (snd (google_fetch r w)))"
  by (auto simp: google_fetch_def split: http_method.splits option.splits)

lemma after_calls_keeps:
  "\<forall>r\<in>set rs. eventId r \<noteq> Some (id' f) \<Longrightarrow> f \<in> set (events w)
     \<Longrightarrow> f \<in> set (events (after_calls google_fetch rs w))"
  by (induction rs arbitrary: w) (auto simp: google_fetch_keeps)

lemma event_calls_target:
  "r \<in> set (event_calls tok cal m e) \<Longrightarrow> eventId r = Some i
     \<Longrightarrow> \<exists>g. map_get m (uid e) = Some g \<and> id' g = i"
  by (auto simp: event_calls_def create_request_def update_request_def
      split: option.splits if_splits)

lemma delete_calls_target:
  "r \<in> set (delete_calls tok cal seen m) \<Longrightarrow> eventId r = Some i
     \<Longrightarrow> \<exists>u g. (u, g) \<in> set m \<and> u \<notin> seen \<and> id' g = i"
  unfolding delete_calls_def delete_request_def by fastforce

lemma planned_calls_target:
  assumes "r \<in> set (planned_calls tok cal src dst)" and "eventId r = Some i"
  shows "\<exists>u g. (u, g) \<in> set (googleEventsByUid dst) \<and> id' g = i"
proof -
  from assms(1) consider e where "e \<in> set src" "r \<in> set (event_calls tok cal (googleEventsByUid dst) e)"
    | "r \<in> set (delete_calls tok cal (uid ` set src) (googleEventsByUid dst))"
    by (auto simp: planned_calls_def)
  then show ?thesis
  proof cases
    case 1
    from event_calls_target [OF 1(2) assms(2)] show ?thesis
      by (auto simp: map_get_entry)
  next
    case 2
    from delete_calls_target [OF 2 assms(2)] show ?thesis by blast
  qed
qed

text \<open>
  Claim C2 (no foreign mutation). An item of a snapshot with distinct ids that carries no
  \<^verbatim>\<open>outlookSyncUid\<close> is the target of no update or delete call of the run, whatever the
  source events and whether the run returns or is left by an exception, and it is still
  in the destination calendar after the run.
\<close>

theorem no_foreign_mutation:
  assumes "f \<in> set dst" and "outlookSyncUid_of f = None" and "distinct (map id' dst)"
  shows "(\<forall>r \<in> set (drop (length (calls s)) (calls (snd (syncEvents fetch now tok cal src dst s)))).
            eventId r \<noteq> Some (id' f))
       \<and> (f \<in> set (events (world c)) \<longrightarrow>
            f \<in> set (events (world (snd (syncEvents google_fetch now tok cal src dst c)))))"
proof -
  have target: "eventId r \<noteq> Some (id' f)" if "r \<in> set (planned_calls tok cal src dst)" for r
  proof
    assume "eventId r = Some (id' f)"
    from planned_calls_target [OF that this] obtain u g
      where e: "(u, g) \<in> set (googleEventsByUid dst)" and i: "id' g = id' f" by blast
    from googleEventsByUid_entry [OF e] have g: "g \<in> set dst" "outlookSyncUid_of g = Some u"
      by auto
    from distinct_ids_eq [OF assms(3) g(1) assms(1) i] have "g = f" .
    with g(2) assms(2) show False by simp
  qed
  show ?thesis
  proof (intro conjI impI)
    from syncEvents_any [of tok cal src dst fetch now s] obtain ps qs where
      p: "planned_calls tok cal src dst = ps @ qs"
      "calls (snd (syncEvents fetch now tok cal src dst s)) = calls s @ ps" by blast
    show "\<forall>r \<in> set (drop (length (calls s)) (calls (snd (syncEvents fetch now tok cal src dst s)))).
            eventId r \<noteq> Some (id' f)"
      using target p by simp
  next
    assume f: "f \<in> set (events (world c))"
    from syncEvents_any [of tok cal src dst google_fetch now c] obtain ps qs where
      p: "planned_calls tok cal src dst = ps @ qs"
      "world (snd (syncEvents google_fetch now tok cal src dst c)) =
         after_calls google_fetch ps (world c)" by blast
    show "f \<in> set (events (world (snd (syncEvents google_fetch now tok cal src dst c))))"
      unfolding p(2) using target p(1) f by (intro after_calls_keeps) auto
  qed
qed

text \<open>
  Claim C7 (failure semantics per item). When \<^verbatim>\<open>fetch\<close> never rejects, the run returns
  whatever the status of the responses, its calls are the planned ones, and the counters
  are the numbers of \<^verbatim>\<open>POST\<close>, \<^verbatim>\<open>PATCH\<close> and \<^verbatim>\<open>DELETE\<close> calls attempted. A writer whose
  response is not ok writes an error line and returns normally, except that a delete
  answered 404 writes nothing.
\<close>

theorem per_item_failure_semantics:
  assumes "resolves fetch"
  shows "(\<exists>res s'. syncEvents fetch now tok cal src dst s = (Inr res, s')
          \<and> calls s' = calls s @ planned_calls tok cal src dst
          \<and> created (stats res) =
              length (filter (\<lambda>r. method r = POST) (planned_calls tok cal src dst))
          \<and> updated (stats res) =
              length (filter (\<lambda>r. method r = PATCH) (planned_calls tok cal src dst))
          \<and> deleted (stats res) =
              length (filter (\<lambda>r. method r = DELETE) (planned_calls tok cal src dst)))
       \<and> (\<forall>resp w'. fetch (create_request tok cal b) (world s) = (Inr resp, w') \<and> \<not> ok resp \<longrightarrow>
            createGoogleEvent fetch tok cal b s =
              (Inr (), console_error (''Failed to create event: '' @ text resp)
                         (s\<lparr>world := w', calls := calls s @ [create_request tok cal b]\<rparr>)))
       \<and> (\<forall>resp w'. fetch (update_request tok cal i b) (world s) = (Inr resp, w') \<and> \<not> ok resp \<longrightarrow>
            updateGoogleEvent fetch tok cal i b s =
              (Inr (), console_error (''Failed to update event: '' @ text resp)
                         (s\<lparr>world := w', calls := calls s @ [update_request tok cal i b]\<rparr>)))
       \<and> (\<forall>resp w'. fetch (delete_request tok cal i) (world s) = (Inr resp, w') \<and> \<not> ok resp \<longrightarrow>
            deleteGoogleEvent fetch tok cal i s =
              (Inr (), if status resp = 404
                       then s\<lparr>world := w', calls := calls s @ [delete_request tok cal i]\<rparr>
                       else console_error (''Failed to delete event: '' @ text resp)
                              (s\<lparr>world := w', calls := calls s @ [delete_request tok cal i]\<rparr>)))"
proof (intro conjI)
  from syncEvents_resolves [OF assms] obtain res s'
    where run: "syncEvents fetch now tok cal src dst s = (Inr res, s')" by blast
  note st = syncEvents_Inr(1) [OF run] and c = syncEvents_Inr(3) [OF run]
  let ?m = "googleEventsByUid dst"
  have "created (stats res) = length (filter (\<lambda>r. method r = POST) (planned_calls tok cal src dst))"
    by (simp add: st fold_event_stats planned_calls_def filter_post_event_calls
        filter_delete_calls length_concat_none)
  moreover
  have "updated (stats res) = length (filter (\<lambda>r. method r = PATCH) (planned_calls tok cal src dst))"
    by (simp add: st fold_event_stats planned_calls_def filter_concat_event_calls
        filter_delete_calls length_concat_option)
  moreover
  have "deleted (stats res) = length (filter (\<lambda>r. method r = DELETE) (planned_calls tok cal src dst))"
    by (simp add: st planned_calls_def filter_delete_event_calls filter_delete_calls)
       (simp add: delete_calls_def)
  ultimately
  show "\<exists>res s'. syncEvents fetch now tok cal src dst s = (Inr res, s')
          \<and> calls s' = calls s @ planned_calls tok cal src dst
          \<and> created (stats res) =
              length (filter (\<lambda>r. method r = POST) (planned_calls tok cal src dst))
          \<and> updated (stats res) =
              length (filter (\<lambda>r. method r = PATCH) (planned_calls tok cal src dst))
          \<and> deleted (stats res) =
              length (filter (\<lambda>r. method r = DELETE) (planned_calls tok cal src dst))"
    using run c by blast
next
  show "\<forall>resp w'. fetch (create_request tok cal b) (world s) = (Inr resp, w') \<and> \<not> ok resp \<longrightarrow>
            createGoogleEvent fetch tok cal b s =
              (Inr (), console_error (''Failed to create event: '' @ text resp)
                         (s\<lparr>world := w', calls := calls s @ [create_request tok cal b]\<rparr>))"
    by (simp add: createGoogleEvent_def do_fetch_def create_request_def)
next
  show "\<forall>resp w'. fetch (update_request tok cal i b) (world s) = (Inr resp, w') \<and> \<not> ok resp \<longrightarrow>
            updateGoogleEvent fetch tok cal i b s =
              (Inr (), console_error (''Failed to update event: '' @ text resp)
                         (s\<lparr>world := w', calls := calls s @ [update_request tok cal i b]\<rparr>))"
    by (simp add: updateGoogleEvent_def do_fetch_def update_request_def)
next
  show "\<forall>resp w'. fetch (delete_request tok cal i) (world s) = (Inr resp, w') \<and> \<not> ok resp \<longrightarrow>
            deleteGoogleEvent fetch tok cal i s =
              (Inr (), if status resp = 404
                       then s\<lparr>world := w', calls := calls s @ [delete_request tok cal i]\<rparr>
                       else console_error (''Failed to delete event: '' @ text resp)
                              (s\<lparr>world := w', calls := calls s @ [delete_request tok cal i]\<rparr>))"
    by (simp add: deleteGoogleEvent_def do_fetch_def delete_request_def)
qed

section \<open>The destination after a run\<close>

lemma google_fetch_available [simp]: "available (snd (google_fetch r w)) = available w"
  by (auto simp: google_fetch_def split: http_method.splits option.splits)

lemma after_calls_available [simp]: "available (after_calls google_fetch rs w) = available w"
  by (induction rs arbitrary: w) auto

lemma google_fetch_create:
  "available w \<Longrightarrow> events (snd (google_fetch (create_request tok cal b) w)) =
     events w @ [insert_event (fresh_id (events w)) b]"
  by (simp add: google_fetch_def create_request_def)

lemma map_if_id: "map (\<lambda>x. if P x then f x else x) xs = xs" if "\<forall>x\<in>set xs. \<not> P x"
  using that by (induction xs) auto

lemma filter_if_id: "filter P xs = xs" if "\<forall>x\<in>set xs. P x"
  using that by (induction xs) auto

lemma google_fetch_update:
  "available w \<Longrightarrow> events (snd (google_fetch (update_request tok cal i b) w)) =
     map (\<lambda>g. if id' g = i then patch_event b g else g) (events w)"
proof (cases "i \<in> id' ` set (events w)")
  case True
  assume "available w"
  with True show ?thesis by (simp add: google_fetch_def update_request_def)
next
  case False
  assume "available w"
  moreover from False
  have "map (\<lambda>g. if id' g = i then patch_event b g else g) (events w) = events w"
    by (intro map_if_id) auto
  ultimately show ?thesis using False by (simp add: google_fetch_def update_request_def)
qed

lemma google_fetch_delete:
  "available w \<Longrightarrow> events (snd (google_fetch (delete_request tok cal i) w)) =
     filter (\<lambda>g. id' g \<noteq> i) (events w)"
proof (cases "i \<in> id' ` set (events w)")
  case True
  assume "available w"
  with True show ?thesis by (simp add: google_fetch_def delete_request_def)
next
  case False
  assume "available w"
  moreover from False have "filter (\<lambda>g. id' g \<noteq> i) (events w) = events w"
    by (intro filter_if_id) auto
  ultimately show ?thesis using False by (simp add: google_fetch_def delete_request_def)
qed

lemma fresh_id_longer: "g \<in> set evs \<Longrightarrow> length (id' g) < length (fresh_id evs)"
  by (induction evs) (auto simp: fresh_id_def)

lemma fresh_id_new: "fresh_id evs \<notin> id' ` set evs"
  using fresh_id_longer by fastforce

lemma insert_event_facts:
  "outlookSyncUid_of (insert_event i (googleEventBody e)) = Some (uid e)"
  "\<not> needs_update (insert_event i (googleEventBody e)) e"
  "id' (insert_event i b) = i"
  by (simp_all add: insert_event_def googleEventBody_def outlookSyncUid_of_def private_of_def
      needs_update_def outlookLastModified_of_def)

lemma patch_event_facts:
  "outlookSyncUid_of (patch_event (googleEventBody e) g) = Some (uid e)"
  "\<not> needs_update (patch_event (googleEventBody e) g) e"
  "id' (patch_event b g) = id' g"
  by (simp_all add: patch_event_def patch_field_def googleEventBody_def outlookSyncUid_of_def
      private_of_def needs_update_def outlookLastModified_of_def)

section \<open>The second of two runs\<close>

lemma settled_create:
  assumes inv: "settled es dst evs"
    and new: "uid e \<notin> uid ` set es" and ne: "uid e \<noteq> []"
    and none: "map_get (googleEventsByUid dst) (uid e) = None"
  shows "settled (es @ [e]) dst (evs @ [insert_event (fresh_id evs) (googleEventBody e)])"
proof -
  let ?n = "insert_event (fresh_id evs) (googleEventBody e)"
  from inv have
    i1: "distinct (map id' evs)" and
    i2: "\<And>g e'. g \<in> set evs \<Longrightarrow> e' \<in> set es \<Longrightarrow> outlookSyncUid_of g = Some (uid e')
          \<Longrightarrow> \<not> needs_update g e'" and
    i3: "\<And>e'. e' \<in> set es \<Longrightarrow> \<exists>g\<in>set evs. outlookSyncUid_of g = Some (uid e')" and
    i4: "\<And>g. g \<in> set evs \<Longrightarrow> (\<forall>e'\<in>set es. outlookSyncUid_of g \<noteq> Some (uid e')) \<Longrightarrow> g \<in> set dst" and
    i5: "\<And>g. g \<in> set dst \<Longrightarrow> (\<forall>e'\<in>set es. outlookSyncUid_of g \<noteq> Some (uid e')) \<Longrightarrow> g \<in> set evs"
    unfolding settled_def by blast+
  have n: "outlookSyncUid_of ?n = Some (uid e)" "\<not> needs_update ?n e" "id' ?n = fresh_id evs"
    by (rule insert_event_facts)+
  have old: "outlookSyncUid_of g \<noteq> Some (uid e)" if "g \<in> set evs" for g
  proof
    assume u: "outlookSyncUid_of g = Some (uid e)"
    with new have "\<forall>e'\<in>set es. outlookSyncUid_of g \<noteq> Some (uid e')"
      by (auto simp: image_iff)
    from i4 [OF that this] index_none [OF none ne] u show False by blast
  qed
  have c1: "distinct (map id' (evs @ [?n]))"
    using i1 fresh_id_new [of evs] by (simp add: n)
  have c2: "\<not> needs_update g e'"
    if "g \<in> set (evs @ [?n])" "e' \<in> set (es @ [e])" "outlookSyncUid_of g = Some (uid e')" for g e'
  proof (cases "g = ?n")
    case True
    with that n new show ?thesis by force
  next
    case False
    with that have g: "g \<in> set evs" by simp
    with old that have "e' \<in> set es" by auto
    from i2 [OF g this that(3)] show ?thesis .
  qed
  have c3: "\<exists>g\<in>set (evs @ [?n]). outlookSyncUid_of g = Some (uid e')" if "e' \<in> set (es @ [e])" for e'
    using that i3 n by auto
  have c4: "g \<in> set dst"
    if "g \<in> set (evs @ [?n])" "\<forall>e'\<in>set (es @ [e]). outlookSyncUid_of g \<noteq> Some (uid e')" for g
    using that i4 n by auto
  have c5: "g \<in> set (evs @ [?n])"
    if "g \<in> set dst" "\<forall>e'\<in>set (es @ [e]). outlookSyncUid_of g \<noteq> Some (uid e')" for g
    using that i5 by auto
  show ?thesis unfolding settled_def using c1 c2 c3 c4 c5 by blast
qed

lemma settled_same:
  assumes inv: "settled es dst evs" and one: "one_item_per_uid dst"
    and new: "uid e \<notin> uid ` set es"
    and some: "map_get (googleEventsByUid dst) (uid e) = Some g0"
    and same: "\<not> needs_update g0 e"
  shows "settled (es @ [e]) dst evs"
proof -
  from inv have
    i1: "distinct (map id' evs)" and
    i2: "\<And>g e'. g \<in> set evs \<Longrightarrow> e' \<in> set es \<Longrightarrow> outlookSyncUid_of g = Some (uid e')
          \<Longrightarrow> \<not> needs_update g e'" and
    i3: "\<And>e'. e' \<in> set es \<Longrightarrow> \<exists>g\<in>set evs. outlookSyncUid_of g = Some (uid e')" and
    i4: "\<And>g. g \<in> set evs \<Longrightarrow> (\<forall>e'\<in>set es. outlookSyncUid_of g \<noteq> Some (uid e')) \<Longrightarrow> g \<in> set dst" and
    i5: "\<And>g. g \<in> set dst \<Longrightarrow> (\<forall>e'\<in>set es. outlookSyncUid_of g \<noteq> Some (uid e')) \<Longrightarrow> g \<in> set evs"
    unfolding settled_def by blast+
  note g0 = index_some [OF some]
  from new g0(2) have fresh: "\<forall>e'\<in>set es. outlookSyncUid_of g0 \<noteq> Some (uid e')"
      by (auto simp: image_iff)
  from i5 [OF g0(1) fresh] have g0_in: "g0 \<in> set evs" .
  have only: "g = g0" if "g \<in> set evs" "outlookSyncUid_of g = Some (uid e)" for g
  proof -
    from new that(2) have "\<forall>e'\<in>set es. outlookSyncUid_of g \<noteq> Some (uid e')"
      by (auto simp: image_iff)
    from i4 [OF that(1) this] have "g \<in> set dst" .
    from one_item_per_uidD [OF one this g0(1) that(2) g0(2) g0(3)] show ?thesis .
  qed
  have c2: "\<not> needs_update g e'"
    if "g \<in> set evs" "e' \<in> set (es @ [e])" "outlookSyncUid_of g = Some (uid e')" for g e'
  proof (cases "e' \<in> set es")
    case True
    from i2 [OF that(1) this that(3)] show ?thesis .
  next
    case False
    with that have "e' = e" by simp
    with only that same show ?thesis by blast
  qed
  have c3: "\<exists>g\<in>set evs. outlookSyncUid_of g = Some (uid e')" if "e' \<in> set (es @ [e])" for e'
    using that i3 g0_in g0(2) by auto
  have c4: "g \<in> set dst"
    if "g \<in> set evs" "\<forall>e'\<in>set (es @ [e]). outlookSyncUid_of g \<noteq> Some (uid e')" for g
    using that i4 by auto
  have c5: "g \<in> set evs"
    if "g \<in> set dst" "\<forall>e'\<in>set (es @ [e]). outlookSyncUid_of g \<noteq> Some (uid e')" for g
    using that i5 by auto
  show ?thesis unfolding settled_def using i1 c2 c3 c4 c5 by blast
qed

lemma settled_update:
  assumes inv: "settled es dst evs" and one: "one_item_per_uid dst"
    and new: "uid e \<notin> uid ` set es"
    and some: "map_get (googleEventsByUid dst) (uid e) = Some g0"
  shows "settled (es @ [e]) dst
           (map (\<lambda>x. if id' x = id' g0 then patch_event (googleEventBody e) x else x) evs)"
proof -
  let ?p = "patch_event (googleEventBody e) g0"
  let ?evs = "map (\<lambda>x. if id' x = id' g0 then patch_event (googleEventBody e) x else x) evs"
  from inv have
    i1: "distinct (map id' evs)" and
    i2: "\<And>g e'. g \<in> set evs \<Longrightarrow> e' \<in> set es \<Longrightarrow> outlookSyncUid_of g = Some (uid e')
          \<Longrightarrow> \<not> needs_update g e'" and
    i3: "\<And>e'. e' \<in> set es \<Longrightarrow> \<exists>g\<in>set evs. outlookSyncUid_of g = Some (uid e')" and
    i4: "\<And>g. g \<in> set evs \<Longrightarrow> (\<forall>e'\<in>set es. outlookSyncUid_of g \<noteq> Some (uid e')) \<Longrightarrow> g \<in> set dst" and
    i5: "\<And>g. g \<in> set dst \<Longrightarrow> (\<forall>e'\<in>set es. outlookSyncUid_of g \<noteq> Some (uid e')) \<Longrightarrow> g \<in> set evs"
    unfolding settled_def by blast+
  note g0 = index_some [OF some]
  from new g0(2) have fresh: "\<forall>e'\<in>set es. outlookSyncUid_of g0 \<noteq> Some (uid e')"
      by (auto simp: image_iff)
  from i5 [OF g0(1) fresh] have g0_in: "g0 \<in> set evs" .
  have p: "outlookSyncUid_of ?p = Some (uid e)" "\<not> needs_update ?p e" "id' ?p = id' g0"
    by (rule patch_event_facts)+
  have same_id: "x = g0" if "x \<in> set evs" "id' x = id' g0" for x
    using distinct_ids_eq [OF i1 that(1) g0_in that(2)] .
  have only: "g = g0" if "g \<in> set evs" "outlookSyncUid_of g = Some (uid e)" for g
  proof -
    from new that(2) have "\<forall>e'\<in>set es. outlookSyncUid_of g \<noteq> Some (uid e')"
      by (auto simp: image_iff)
    from i4 [OF that(1) this] have "g \<in> set dst" .
    from one_item_per_uidD [OF one this g0(1) that(2) g0(2) g0(3)] show ?thesis .
  qed
  have mem: "g \<in> set ?evs \<longleftrightarrow> g = ?p \<or> (g \<in> set evs \<and> g \<noteq> g0)" for g
  proof
    assume "g \<in> set ?evs"
    then obtain x where x: "x \<in> set evs"
      and g: "g = (if id' x = id' g0 then patch_event (googleEventBody e) x else x)" by auto
    show "g = ?p \<or> (g \<in> set evs \<and> g \<noteq> g0)"
    proof (cases "id' x = id' g0")
      case True
      with same_id [OF x] g show ?thesis by simp
    next
      case False
      with x g show ?thesis by auto
    qed
  next
    assume "g = ?p \<or> (g \<in> set evs \<and> g \<noteq> g0)"
    then show "g \<in> set ?evs"
    proof
      assume "g = ?p"
      with g0_in show ?thesis by (force simp: image_iff)
    next
      assume a: "g \<in> set evs \<and> g \<noteq> g0"
      with same_id [of g] have "id' g \<noteq> id' g0" by blast
      with a show ?thesis by (force simp: image_iff)
    qed
  qed
  have c1: "distinct (map id' ?evs)"
  proof -
    have "id' \<circ> (\<lambda>x. if id' x = id' g0 then patch_event (googleEventBody e) x else x) = id'"
      by (rule ext) (simp add: patch_event_facts)
    with i1 show ?thesis by simp
  qed
  have c2: "\<not> needs_update g e'"
    if "g \<in> set ?evs" "e' \<in> set (es @ [e])" "outlookSyncUid_of g = Some (uid e')" for g e'
  proof (cases "g = ?p")
    case True
    with that p new show ?thesis by force
  next
    case False
    with that(1) mem have g: "g \<in> set evs" "g \<noteq> g0" by auto
    with only that have "e' \<in> set es" by auto
    from i2 [OF g(1) this that(3)] show ?thesis .
  qed
  have c3: "\<exists>g\<in>set ?evs. outlookSyncUid_of g = Some (uid e')" if "e' \<in> set (es @ [e])" for e'
  proof (cases "e' \<in> set es")
    case True
    from i3 [OF this] obtain g where g: "g \<in> set evs" "outlookSyncUid_of g = Some (uid e')" by blast
    with True fresh have "g \<noteq> g0" by auto
    with g mem show ?thesis by blast
  next
    case False
    with that have "e' = e" by simp
    with p(1) mem show ?thesis by blast
  qed
  have c4: "g \<in> set dst"
    if "g \<in> set ?evs" "\<forall>e'\<in>set (es @ [e]). outlookSyncUid_of g \<noteq> Some (uid e')" for g
  proof -
    from that(2) p(1) have "g \<noteq> ?p" by auto
    with that(1) mem have "g \<in> set evs" by blast
    with that(2) i4 show ?thesis by auto
  qed
  have c5: "g \<in> set ?evs"
    if "g \<in> set dst" "\<forall>e'\<in>set (es @ [e]). outlookSyncUid_of g \<noteq> Some (uid e')" for g
  proof -
    from that i5 have "g \<in> set evs" by auto
    moreover from that(2) g0(2) have "g \<noteq> g0" by auto
    ultimately show ?thesis using mem by blast
  qed
  show ?thesis unfolding settled_def using c1 c2 c3 c4 c5 by blast
qed

lemma settled_step:
  assumes inv: "settled es dst (events w)" and av: "available w"
    and one: "one_item_per_uid dst"
    and new: "uid e \<notin> uid ` set es" and ne: "uid e \<noteq> []"
  shows "settled (es @ [e]) dst
           (events (after_calls google_fetch (event_calls tok cal (googleEventsByUid dst) e) w))"
proof (cases "map_get (googleEventsByUid dst) (uid e)")
  case None
  with settled_create [OF inv new ne None] av show ?thesis
    by (simp add: event_calls_def google_fetch_create)
next
  case (Some g0)
  show ?thesis
  proof (cases "needs_update g0 e")
    case True
    with settled_update [OF inv one new Some] av Some show ?thesis
      by (simp add: event_calls_def google_fetch_update)
  next
    case False
    with settled_same [OF inv one new Some False] Some show ?thesis
      by (simp add: event_calls_def)
  qed
qed

lemma settled_loop:
  assumes "settled es dst (events w)" and "available w" and "one_item_per_uid dst"
    and "distinct (map uid (es @ rs))" and "\<forall>e\<in>set rs. uid e \<noteq> []"
  shows "settled (es @ rs) dst
           (events (after_calls google_fetch
              (concat (map (event_calls tok cal (googleEventsByUid dst)) rs)) w))"
  using assms
proof (induction rs arbitrary: es w)
  case Nil
  then show ?case by simp
next
  case (Cons e rs)
  let ?w = "after_calls google_fetch (event_calls tok cal (googleEventsByUid dst) e) w"
  from Cons.prems have new: "uid e \<notin> uid ` set es" and ne: "uid e \<noteq> []" by auto
  from settled_step [OF Cons.prems(1,2,3) new ne]
  have s: "settled (es @ [e]) dst (events ?w)" .
  have "settled ((es @ [e]) @ rs) dst
          (events (after_calls google_fetch
              (concat (map (event_calls tok cal (googleEventsByUid dst)) rs)) ?w))"
    using Cons.prems by (intro Cons.IH [OF s]) auto
  then show ?case by simp
qed

lemma settled_start: "distinct (map id' dst) \<Longrightarrow> settled [] dst dst"
  by (simp add: settled_def)

lemma after_delete_calls:
  "available w \<Longrightarrow>
     events (after_calls google_fetch (delete_calls tok cal seen m) w) =
       filter (\<lambda>x. \<forall>(u, g)\<in>set m. u \<notin> seen \<longrightarrow> id' x \<noteq> id' g) (events w)"
proof (induction m arbitrary: w)
  case Nil
  then show ?case by (simp add: delete_calls_def)
next
  case (Cons p m)
  obtain u g where p: "p = (u, g)" by (cases p)
  have dc: "delete_calls tok cal seen (p # m) =
      (if u \<notin> seen then [delete_request tok cal (id' g)] else []) @ delete_calls tok cal seen m"
    by (simp add: delete_calls_def p)
  show ?case
  proof (cases "u \<in> seen")
    case True
    with Cons dc p show ?thesis by simp
  next
    case False
    let ?w = "snd (google_fetch (delete_request tok cal (id' g)) w)"
    from Cons.prems have av: "available ?w" by simp
    from Cons.IH [OF av] False dc p Cons.prems show ?thesis
      by (auto simp: google_fetch_delete intro: filter_cong)
  qed
qed

lemma first_run_settles:
  assumes src: "distinct (map uid src)" "\<forall>e\<in>set src. uid e \<noteq> []"
    and dst: "distinct (map id' (events w))" "one_item_per_uid (events w)" and av: "available w"
    and evs_def: "evs = events (after_calls google_fetch (planned_calls tok cal src (events w)) w)"
  shows "\<forall>g\<in>set evs. truthy (outlookSyncUid_of g) \<longrightarrow>
           (\<exists>e\<in>set src. outlookSyncUid_of g = Some (uid e) \<and> \<not> needs_update g e)"
    and "\<forall>e\<in>set src. \<exists>g\<in>set evs. outlookSyncUid_of g = Some (uid e)"
proof -
  let ?dst = "events w"
  let ?m = "googleEventsByUid ?dst"
  let ?w1 = "after_calls google_fetch (concat (map (event_calls tok cal ?m) src)) w"
  let ?keep = "\<lambda>x. \<forall>(u, g)\<in>set ?m. u \<notin> uid ` set src \<longrightarrow> id' x \<noteq> id' g"
  from settled_loop [OF settled_start [OF dst(1)] av dst(2), of src tok cal] src
  have inv: "settled src ?dst (events ?w1)" by simp
  then have
    i1: "distinct (map id' (events ?w1))" and
    i2: "\<And>g e'. g \<in> set (events ?w1) \<Longrightarrow> e' \<in> set src \<Longrightarrow> outlookSyncUid_of g = Some (uid e')
          \<Longrightarrow> \<not> needs_update g e'" and
    i3: "\<And>e'. e' \<in> set src \<Longrightarrow> \<exists>g\<in>set (events ?w1). outlookSyncUid_of g = Some (uid e')" and
    i4: "\<And>g. g \<in> set (events ?w1) \<Longrightarrow> (\<forall>e'\<in>set src. outlookSyncUid_of g \<noteq> Some (uid e'))
          \<Longrightarrow> g \<in> set ?dst" and
    i5: "\<And>g. g \<in> set ?dst \<Longrightarrow> (\<forall>e'\<in>set src. outlookSyncUid_of g \<noteq> Some (uid e'))
          \<Longrightarrow> g \<in> set (events ?w1)"
    unfolding settled_def by blast+
  have av1: "available ?w1" using av by simp
  have evs: "evs = filter ?keep (events ?w1)"
    unfolding evs_def planned_calls_def by (simp add: after_delete_calls [OF av1])
  show "\<forall>g\<in>set evs. truthy (outlookSyncUid_of g) \<longrightarrow>
           (\<exists>e\<in>set src. outlookSyncUid_of g = Some (uid e) \<and> \<not> needs_update g e)"
  proof (intro ballI impI)
    fix g assume g: "g \<in> set evs" and t: "truthy (outlookSyncUid_of g)"
    from g evs have g1: "g \<in> set (events ?w1)" and keep: "?keep g" by auto
    from t obtain u where u: "outlookSyncUid_of g = Some u" "u \<noteq> []"
      by (auto simp: truthy_def split: option.splits)
    show "\<exists>e\<in>set src. outlookSyncUid_of g = Some (uid e) \<and> \<not> needs_update g e"
    proof (cases "u \<in> uid ` set src")
      case True
      then obtain e where e: "e \<in> set src" "uid e = u" by auto
      with i2 [OF g1 e(1)] u show ?thesis by auto
    next
      case False
      with u have "\<forall>e'\<in>set src. outlookSyncUid_of g \<noteq> Some (uid e')" by auto
      from i4 [OF g1 this] have gd: "g \<in> set ?dst" .
      have "map_get ?m u \<noteq> None" using index_none [of ?dst u g] u gd by auto
      then obtain g' where g': "map_get ?m u = Some g'" by auto
      note s = index_some [OF g']
      from one_item_per_uidD [OF dst(2) gd s(1) u(1) s(2) u(2)] have "g = g'" .
      with g' have "(u, g) \<in> set ?m" by (simp add: map_get_entry)
      with keep False show ?thesis by auto
    qed
  qed
  show "\<forall>e\<in>set src. \<exists>g\<in>set evs. outlookSyncUid_of g = Some (uid e)"
  proof
    fix e assume e: "e \<in> set src"
    from i3 [OF e] obtain g where g: "g \<in> set (events ?w1)" "outlookSyncUid_of g = Some (uid e)"
      by blast
    have "?keep g"
    proof (clarify)
      fix u0 g0 assume ent: "(u0, g0) \<in> set ?m" and gone: "u0 \<notin> uid ` set src"
        and same: "id' g = id' g0"
      note s = googleEventsByUid_entry [OF ent]
      from s gone have "\<forall>e'\<in>set src. outlookSyncUid_of g0 \<noteq> Some (uid e')" by auto
      from i5 [OF _ this] s have "g0 \<in> set (events ?w1)" by simp
      from distinct_ids_eq [OF i1 g(1) this same] have "g = g0" .
      with g(2) s gone e show False by auto
    qed
    with g evs show "\<exists>g\<in>set evs. outlookSyncUid_of g = Some (uid e)" by auto
  qed
qed

lemma settled_second_run:
  assumes src: "distinct (map uid src)" "\<forall>e\<in>set src. uid e \<noteq> []"
    and p1: "\<forall>g\<in>set evs. truthy (outlookSyncUid_of g) \<longrightarrow>
           (\<exists>e\<in>set src. outlookSyncUid_of g = Some (uid e) \<and> \<not> needs_update g e)"
    and p2: "\<forall>e\<in>set src. \<exists>g\<in>set evs. outlookSyncUid_of g = Some (uid e)"
  shows "\<forall>e\<in>set src. \<exists>g. map_get (googleEventsByUid evs) (uid e) = Some g \<and> \<not> needs_update g e"
    and "\<forall>(u, g)\<in>set (googleEventsByUid evs). u \<in> uid ` set src"
proof -
  show "\<forall>e\<in>set src. \<exists>g. map_get (googleEventsByUid evs) (uid e) = Some g \<and> \<not> needs_update g e"
  proof
    fix e assume e: "e \<in> set src"
    with src have ne: "uid e \<noteq> []" by auto
    from p2 e obtain g0 where "g0 \<in> set evs" "outlookSyncUid_of g0 = Some (uid e)" by blast
    with index_none [of evs "uid e" g0] ne
    obtain g where g: "map_get (googleEventsByUid evs) (uid e) = Some g" by auto
    note s = index_some [OF g]
    from s have "truthy (outlookSyncUid_of g)" by (simp add: truthy_def)
    with p1 s(1) obtain e' where e': "e' \<in> set src" "outlookSyncUid_of g = Some (uid e')"
      "\<not> needs_update g e'" by blast
    with s(2) have "uid e' = uid e" by simp
    with src(1) e e'(1) have "e' = e" by (meson distinct_map inj_onD)
    with g e'(3) show "\<exists>g. map_get (googleEventsByUid evs) (uid e) = Some g \<and> \<not> needs_update g e"
      by blast
  qed
  show "\<forall>(u, g)\<in>set (googleEventsByUid evs). u \<in> uid ` set src"
  proof (clarify)
    fix u g assume ent: "(u, g) \<in> set (googleEventsByUid evs)"
    note s = googleEventsByUid_entry [OF ent]
    from s have "truthy (outlookSyncUid_of g)" by (simp add: truthy_def)
    with p1 s obtain e where "e \<in> set src" "outlookSyncUid_of g = Some (uid e)" by blast
    with s show "u \<in> uid ` set src" by auto
  qed
qed

lemma nothing_planned:
  assumes "\<forall>e\<in>set src. \<exists>g. map_get (googleEventsByUid evs) (uid e) = Some g \<and> \<not> needs_update g e"
    and "\<forall>(u, g)\<in>set (googleEventsByUid evs). u \<in> uid ` set src"
  shows "planned_calls tok cal src evs = []"
    and "filter (\<lambda>e. map_get (googleEventsByUid evs) (uid e) = None) src = []"
    and "filter (\<lambda>e. case map_get (googleEventsByUid evs) (uid e) of
                        None \<Rightarrow> False | Some g \<Rightarrow> needs_update g e) src = []"
    and "filter (\<lambda>e. case map_get (googleEventsByUid evs) (uid e) of
                        None \<Rightarrow> False | Some g \<Rightarrow> \<not> needs_update g e) src = src"
    and "filter (\<lambda>(u, g). u \<notin> uid ` set src) (googleEventsByUid evs) = []"
proof -
  show 5: "filter (\<lambda>(u, g). u \<notin> uid ` set src) (googleEventsByUid evs) = []"
    using assms(2) by (auto simp: filter_empty_conv)
  have "event_calls tok cal (googleEventsByUid evs) e = []" if "e \<in> set src" for e
    using assms(1) that by (auto simp: event_calls_def)
  then have "concat (map (event_calls tok cal (googleEventsByUid evs)) src) = []"
    by (induction src) auto
  with 5 show "planned_calls tok cal src evs = []"
    by (simp add: planned_calls_def delete_calls_def)
  show "filter (\<lambda>e. map_get (googleEventsByUid evs) (uid e) = None) src = []"
    using assms(1) by (auto simp: filter_empty_conv)
  show "filter (\<lambda>e. case map_get (googleEventsByUid evs) (uid e) of
                        None \<Rightarrow> False | Some g \<Rightarrow> needs_update g e) src = []"
    using assms(1) by (auto simp: filter_empty_conv)
  show "filter (\<lambda>e. case map_get (googleEventsByUid evs) (uid e) of
                        None \<Rightarrow> False | Some g \<Rightarrow> \<not> needs_update g e) src = src"
    using assms(1) by (intro filter_if_id) auto
qed

text \<open>
  Claim C1, amended (idempotence). For source events with pairwise distinct, non-empty
  uids, and a destination calendar that is available, whose items have distinct ids and
  no two of which carry the same non-empty \<^verbatim>\<open>outlookSyncUid\<close>: the first run returns, and
  the second run, on the events the first one left, returns with \<open>created\<close>, \<open>updated\<close>
  and \<open>deleted\<close> zero and \<open>unchanged\<close> the number of source events; it calls nothing and
  leaves the calendar as it is.
\<close>

theorem idempotence:
  assumes "distinct (map uid src)" and "\<forall>e\<in>set src. uid e \<noteq> []"
    and "distinct (map id' (events (world s)))" and "one_item_per_uid (events (world s))"
    and "available (world s)"
  shows "\<exists>res1 s1 res2 s2.
           syncEvents google_fetch now tok cal src (events (world s)) s = (Inr res1, s1)
         \<and> syncEvents google_fetch now tok cal src (events (world s1)) s1 = (Inr res2, s2)
         \<and> run_twice now tok cal src s = (Inr res2, s2)
         \<and> stats res2 = \<lparr>created = 0, updated = 0, deleted = 0, unchanged = length src\<rparr>
         \<and> calls s2 = calls s1 \<and> world s2 = world s1"
proof -
  from syncEvents_resolves [OF google_fetch_resolves]
  obtain res1 s1 where run1:
    "syncEvents google_fetch now tok cal src (events (world s)) s = (Inr res1, s1)" by blast
  from syncEvents_resolves [OF google_fetch_resolves]
  obtain res2 s2 where run2:
    "syncEvents google_fetch now tok cal src (events (world s1)) s1 = (Inr res2, s2)" by blast
  have twice: "run_twice now tok cal src s = (Inr res2, s2)"
    by (simp add: run_twice_def run1 run2)
  have w1: "world s1 = after_calls google_fetch (planned_calls tok cal src (events (world s))) (world s)"
    by (rule syncEvents_Inr(4) [OF run1])
  have "events (world s1) =
      events (after_calls google_fetch (planned_calls tok cal src (events (world s))) (world s))"
    by (simp add: w1)
  note p = first_run_settles [OF assms this]
  note q = settled_second_run [OF assms(1,2) p]
  note n = nothing_planned(1) [OF q, of tok cal] nothing_planned(2-5) [OF q]
  have "stats res2 = \<lparr>created = 0, updated = 0, deleted = 0, unchanged = length src\<rparr>"
    by (simp add: syncEvents_Inr(1) [OF run2] fold_event_stats n)
  moreover have "calls s2 = calls s1" by (simp add: syncEvents_Inr(3) [OF run2] n)
  moreover have "world s2 = world s1" by (simp add: syncEvents_Inr(4) [OF run2] n)
  ultimately show ?thesis using run1 run2 twice by blast
qed

text \<open>
  Claim C3, amended (what an update writes). The update of the loop body is one
  \<^verbatim>\<open>PATCH\<close> call on the id of the existing item, with the desired representation as
  body. In the destination calendar only that item changes: summary, description,
  location, the extended properties, start and end become the desired ones; attendees
  and organizer become the desired ones when the desired body has them and keep their
  stored values when it has not.
\<close>

theorem update_is_patch:
  assumes "map_get byUid (uid e) = Some g" and "needs_update g e"
    and "available (world s)" and "g \<in> set (events (world s))"
    and "distinct (map id' (events (world s)))"
  shows "\<exists>st' seen' s' g'.
           sync_outlook_event google_fetch tok cal byUid e st seen s = (Inr (st', seen'), s')
         \<and> calls s' = calls s @
              [\<lparr>method = PATCH, calendarId = cal, eventId = Some (id' g), authorization = tok,
                body = Some (googleEventBody e)\<rparr>]
         \<and> events (world s') = map (\<lambda>x. if x = g then g' else x) (events (world s))
         \<and> id' g' = id' g
         \<and> summary g' = Some (outlook_event.summary e)
         \<and> description g' = Some (outlook_event.description e)
         \<and> location g' = Some (outlook_event.location e)
         \<and> extendedProperties g' = extendedProperties (googleEventBody e)
         \<and> start g' = start (googleEventBody e)
         \<and> end g' = end (googleEventBody e)
         \<and> attendees g' =
             (if outlook_event.attendees e \<noteq> [] then Some (outlook_event.attendees e)
              else attendees g)
         \<and> organizer g' =
             (case outlook_event.organizer e of
                None \<Rightarrow> organizer g
              | Some org \<Rightarrow> if email org \<noteq> [] then Some org else organizer g)"
proof -
  let ?b = "googleEventBody e"
  let ?p = "patch_event ?b g"
  from sync_outlook_event_resolves [OF google_fetch_resolves]
  obtain acc s' where "sync_outlook_event google_fetch tok cal byUid e st seen s = (Inr acc, s')"
    by blast
  then obtain st' seen' where
    run: "sync_outlook_event google_fetch tok cal byUid e st seen s = (Inr (st', seen'), s')"
    by (cases acc) auto
  note r = sync_outlook_event_Inr [OF run]
  have ec: "event_calls tok cal byUid e = [update_request tok cal (id' g) ?b]"
    using assms(1,2) by (simp add: event_calls_def)
  have c: "calls s' = calls s @
              [\<lparr>method = PATCH, calendarId = cal, eventId = Some (id' g), authorization = tok,
                body = Some ?b\<rparr>]"
    using r(3) ec by (simp add: update_request_def)
  have "events (world s') = map (\<lambda>x. if id' x = id' g then patch_event ?b x else x) (events (world s))"
    using r(4) ec assms(3) by (simp add: google_fetch_update)
  also have "\<dots> = map (\<lambda>x. if x = g then ?p else x) (events (world s))"
    using distinct_ids_eq [OF assms(5) _ assms(4)] by (intro map_cong) auto
  finally have w: "events (world s') = map (\<lambda>x. if x = g then ?p else x) (events (world s))" .
  have f: "id' ?p = id' g"
    "summary ?p = Some (outlook_event.summary e)"
    "description ?p = Some (outlook_event.description e)"
    "location ?p = Some (outlook_event.location e)"
    "extendedProperties ?p = extendedProperties ?b"
    "start ?p = start ?b"
    "end ?p = end ?b"
    "attendees ?p = (if outlook_event.attendees e \<noteq> [] then Some (outlook_event.attendees e)
                     else attendees g)"
    "organizer ?p = (case outlook_event.organizer e of
                       None \<Rightarrow> organizer g
                     | Some org \<Rightarrow> if email org \<noteq> [] then Some org else organizer g)"
    by (simp_all add: patch_event_def patch_field_def googleEventBody_def split: option.splits)
  from run c w f show ?thesis by blast
qed

section \<open>Concrete runs\<close>

lemmas fixture_defs = standup_def holiday_def nameless_def bob_def owned_by_def stored_standup_def
  stored_review_def stored_review_copy_def dentist_def io0_def calendar0_def

lemma index0: "googleEventsByUid calendar0 = [(''A'', stored_standup), (''C'', stored_review)]"
  by (simp add: googleEventsByUid_def outlookSyncUid_of_def private_of_def fixture_defs)

lemma uids0: "uid standup = ''A''" "uid holiday = ''B''"
  by (simp_all add: standup_def holiday_def)

lemma stale0: "needs_update stored_standup standup"
  by (simp add: needs_update_def outlookLastModified_of_def private_of_def fixture_defs)

lemma ids0: "id' stored_standup = ''g1''" "id' dentist = ''g3''" "id' stored_review = ''g2''"
  by (simp_all add: fixture_defs)

theorem counter_sum_invariant_witness:
  "resolves google_fetch
   \<and> (\<exists>res s'. syncEvents google_fetch ''now'' ''tok'' ''cal'' [standup, holiday] calendar0
                   (io0 calendar0 True) = (Inr res, s')
        \<and> created (stats res) + updated (stats res) + unchanged (stats res) = 2
        \<and> deleted (stats res) = 1)"
proof -
  have r: "resolves google_fetch" by (rule google_fetch_resolves)
  from counter_sum_invariant [where fetch = google_fetch and now = "''now''" and tok = "''tok''"
      and cal = "''cal''" and src = "[standup, holiday]" and dst = calendar0
      and s = "io0 calendar0 True"] r
  obtain res s' where run: "syncEvents google_fetch ''now'' ''tok'' ''cal'' [standup, holiday]
      calendar0 (io0 calendar0 True) = (Inr res, s')" by blast
  from counter_sum_invariant [where fetch = google_fetch and now = "''now''" and tok = "''tok''"
      and cal = "''cal''" and src = "[standup, holiday]" and dst = calendar0
      and s = "io0 calendar0 True" and res = res and s' = s'] run
  have "created (stats res) + updated (stats res) + unchanged (stats res) = 2
        \<and> deleted (stats res) = 1"
    by (simp add: index0 uids0)
  with r run show ?thesis by blast
qed

theorem change_detector_policy_witness:
  "map_get (googleEventsByUid calendar0) (uid standup) = Some stored_standup
   \<and> needs_update stored_standup standup
   \<and> (\<exists>res s'. syncEvents google_fetch ''now'' ''tok'' ''cal'' [standup, holiday] calendar0
                   (io0 calendar0 True) = (Inr res, s')
        \<and> filter (\<lambda>r. method r = PATCH) (calls s') =
            [update_request ''tok'' ''cal'' ''g1'' (googleEventBody standup)]
        \<and> updated (stats res) = 1 \<and> unchanged (stats res) = 0)
   \<and> map_get [(''A'', insert_event ''g9'' (googleEventBody standup))] (uid standup)
        = Some (insert_event ''g9'' (googleEventBody standup))
   \<and> \<not> needs_update (insert_event ''g9'' (googleEventBody standup)) standup
   \<and> sync_outlook_event google_fetch ''tok'' ''cal''
        [(''A'', insert_event ''g9'' (googleEventBody standup))] standup
        \<lparr>created = 0, updated = 0, deleted = 0, unchanged = 0\<rparr> {} (io0 [] True)
      = (Inr (\<lparr>created = 0, updated = 0, deleted = 0, unchanged = 1\<rparr>, {''A''}), io0 [] True)"
proof -
  let ?g = "insert_event ''g9'' (googleEventBody standup)"
  have g1: "map_get (googleEventsByUid calendar0) (uid standup) = Some stored_standup"
    by (simp add: index0 uids0 map_get_def)
  from syncEvents_resolves [OF google_fetch_resolves]
  obtain res s' where run: "syncEvents google_fetch ''now'' ''tok'' ''cal'' [standup, holiday]
      calendar0 (io0 calendar0 True) = (Inr res, s')" by blast
  from change_detector_policy [where fetch = google_fetch and now = "''now''" and tok = "''tok''"
      and cal = "''cal''" and src = "[standup, holiday]" and dst = calendar0
      and s = "io0 calendar0 True" and res = res and s' = s'] run
  have a: "filter (\<lambda>r. method r = PATCH) (calls s') =
            [update_request ''tok'' ''cal'' ''g1'' (googleEventBody standup)]
        \<and> updated (stats res) = 1 \<and> unchanged (stats res) = 0"
    by (simp add: index0 uids0 map_get_def stale0 ids0 io0_def)
  have g2: "map_get [(''A'', ?g)] (uid standup) = Some ?g"
    by (simp add: map_get_def uids0)
  have fresh: "\<not> needs_update ?g standup" by (rule insert_event_facts)
  from change_detector_policy [where byUid = "[(''A'', ?g)]" and e = standup and g = ?g
      and fetch = google_fetch and tok = "''tok''" and cal = "''cal''"
      and st = "\<lparr>created = 0, updated = 0, deleted = 0, unchanged = 0\<rparr>" and seen = "{}"
      and t = "io0 [] True"] g2 fresh
  have b: "sync_outlook_event google_fetch ''tok'' ''cal'' [(''A'', ?g)] standup
        \<lparr>created = 0, updated = 0, deleted = 0, unchanged = 0\<rparr> {} (io0 [] True)
      = (Inr (\<lparr>created = 0, updated = 0, deleted = 0, unchanged = 1\<rparr>, {''A''}), io0 [] True)"
    by (simp add: uids0)
  from g1 stale0 run a g2 fresh b show ?thesis by blast
qed

theorem delete_on_disappearance_witness:
  "distinct (map id' calendar0) \<and> one_item_per_uid calendar0
   \<and> (\<exists>res s'. syncEvents google_fetch ''now'' ''tok'' ''cal'' [standup, holiday] calendar0
                   (io0 calendar0 True) = (Inr res, s')
        \<and> filter (\<lambda>r. method r = DELETE) (calls s') = [delete_request ''tok'' ''cal'' ''g2'']
        \<and> count_list (calls s') (delete_request ''tok'' ''cal'' ''g2'') = 1
        \<and> deleted (stats res) = 1)
   \<and> (\<exists>res s'. syncEvents google_fetch ''now'' ''tok'' ''cal'' [] calendar0
                   (io0 calendar0 True) = (Inr res, s')
        \<and> filter (\<lambda>r. method r = DELETE) (calls s') =
            [delete_request ''tok'' ''cal'' ''g1'', delete_request ''tok'' ''cal'' ''g2'']
        \<and> deleted (stats res) = 2
        \<and> delete_request ''tok'' ''cal'' ''g2'' \<in> set (calls s'))"
proof -
  have d: "distinct (map id' calendar0)" by (simp add: fixture_defs)
  from syncEvents_resolves [OF google_fetch_resolves]
  obtain res s' where run: "syncEvents google_fetch ''now'' ''tok'' ''cal'' [standup, holiday]
      calendar0 (io0 calendar0 True) = (Inr res, s')" by blast
  from syncEvents_resolves [OF google_fetch_resolves]
  obtain res0 s0 where run0: "syncEvents google_fetch ''now'' ''tok'' ''cal'' []
      calendar0 (io0 calendar0 True) = (Inr res0, s0)" by blast
  from delete_on_disappearance [of google_fetch "''now''" "''tok''" "''cal''" "[standup, holiday]"
      calendar0 "io0 calendar0 True" res s'] run d
  have a: "filter (\<lambda>r. method r = DELETE) (calls s') = [delete_request ''tok'' ''cal'' ''g2'']
        \<and> count_list (calls s') (delete_request ''tok'' ''cal'' ''g2'') = 1
        \<and> deleted (stats res) = 1"
    by (simp add: index0 uids0 ids0 io0_def)
  have one: "one_item_per_uid calendar0" "stored_review \<in> set calendar0"
    "truthy (outlookSyncUid_of stored_review)"
    by (simp_all add: calendar0_def one_item_per_uid_def truthy_def outlookSyncUid_of_def
        private_of_def stored_standup_def stored_review_def dentist_def owned_by_def)
  from delete_on_disappearance [of google_fetch "''now''" "''tok''" "''cal''" "[]"
      calendar0 "io0 calendar0 True" res0 s0] run0 one(1)
  have b: "filter (\<lambda>r. method r = DELETE) (calls s0) =
            [delete_request ''tok'' ''cal'' ''g1'', delete_request ''tok'' ''cal'' ''g2'']
        \<and> deleted (stats res0) = 2"
    and every: "\<forall>g\<in>set calendar0. truthy (outlookSyncUid_of g) \<longrightarrow>
        delete_request ''tok'' ''cal'' (id' g) \<in> set (calls s0)"
    by (simp_all add: index0 ids0 io0_def)
  from every one(2,3) have c: "delete_request ''tok'' ''cal'' ''g2'' \<in> set (calls s0)"
    by (auto simp: ids0)
  from d one(1) run a run0 b c show ?thesis by blast
qed

theorem no_foreign_mutation_witness:
  "dentist \<in> set calendar0 \<and> outlookSyncUid_of dentist = None \<and> distinct (map id' calendar0)
   \<and> list_all (\<lambda>r. eventId r \<noteq> Some ''g3'')
        (calls (snd (syncEvents google_fetch ''now'' ''tok'' ''cal'' [standup, holiday] calendar0
                       (io0 calendar0 True))))
   \<and> dentist \<in> set (events (world (snd (syncEvents google_fetch ''now'' ''tok'' ''cal''
                       [standup, holiday] calendar0 (io0 calendar0 True)))))"
proof -
  have h: "dentist \<in> set calendar0" "outlookSyncUid_of dentist = None"
    "distinct (map id' calendar0)"
    by (simp_all add: fixture_defs outlookSyncUid_of_def private_of_def)
  from no_foreign_mutation [OF h, of "io0 calendar0 True" google_fetch "''now''" "''tok''" "''cal''"
      "[standup, holiday]" "io0 calendar0 True"] h(1)
  have "(\<forall>r\<in>set (calls (snd (syncEvents google_fetch ''now'' ''tok'' ''cal'' [standup, holiday]
            calendar0 (io0 calendar0 True)))). eventId r \<noteq> Some ''g3'')
      \<and> dentist \<in> set (events (world (snd (syncEvents google_fetch ''now'' ''tok'' ''cal''
            [standup, holiday] calendar0 (io0 calendar0 True)))))"
    by (simp add: io0_def ids0)
  with h show ?thesis by (simp add: list_all_iff)
qed

lemma after_calls_unavailable: "\<not> available w \<Longrightarrow> after_calls google_fetch rs w = w"
  by (induction rs) (simp_all add: google_fetch_def)

theorem per_item_failure_semantics_witness:
  "resolves google_fetch
   \<and> fst (google_fetch (create_request ''tok'' ''cal'' (googleEventBody holiday))
            (world (io0 calendar0 False))) =
        Inr \<lparr>ok = False, status = 503, text = ''Service Unavailable''\<rparr>
   \<and> (\<exists>res s'. syncEvents google_fetch ''now'' ''tok'' ''cal'' [standup, holiday] calendar0
                   (io0 calendar0 False) = (Inr res, s')
        \<and> map method (calls s') = [PATCH, POST, DELETE]
        \<and> created (stats res) = 1 \<and> updated (stats res) = 1 \<and> deleted (stats res) = 1
        \<and> events (world s') = calendar0)"
proof -
  have r: "resolves google_fetch" by (rule google_fetch_resolves)
  have down: "fst (google_fetch (create_request ''tok'' ''cal'' (googleEventBody holiday))
            (world (io0 calendar0 False))) =
        Inr \<lparr>ok = False, status = 503, text = ''Service Unavailable''\<rparr>"
    by (simp add: google_fetch_def answer_def io0_def)
  have p: "map method (planned_calls ''tok'' ''cal'' [standup, holiday] calendar0)
      = [PATCH, POST, DELETE]"
    by (simp add: planned_calls_def event_calls_def delete_calls_def index0 uids0 map_get_def
        stale0 update_request_def create_request_def delete_request_def)
  from per_item_failure_semantics [OF r, of "''now''" "''tok''" "''cal''" "[standup, holiday]"
      calendar0 "io0 calendar0 False"]
  obtain res s' where run: "syncEvents google_fetch ''now'' ''tok'' ''cal'' [standup, holiday]
        calendar0 (io0 calendar0 False) = (Inr res, s')"
    and c: "calls s' = calls (io0 calendar0 False) @ planned_calls ''tok'' ''cal'' [standup, holiday] calendar0"
    and n: "created (stats res) =
              length (filter (\<lambda>r. method r = POST) (planned_calls ''tok'' ''cal'' [standup, holiday] calendar0))"
      "updated (stats res) =
              length (filter (\<lambda>r. method r = PATCH) (planned_calls ''tok'' ''cal'' [standup, holiday] calendar0))"
      "deleted (stats res) =
              length (filter (\<lambda>r. method r = DELETE) (planned_calls ''tok'' ''cal'' [standup, holiday] calendar0))"
    by blast
  have len: "length (filter P xs) = length (filter (\<lambda>m. m = k) (map method xs))"
    if "P = (\<lambda>r. method r = k)" for P k and xs :: "request list"
    unfolding that by (induction xs) auto
  have counts: "created (stats res) = 1 \<and> updated (stats res) = 1 \<and> deleted (stats res) = 1"
    using n by (simp add: len [OF refl] p)
  have same: "events (after_calls google_fetch rs (world (io0 calendar0 False))) = calendar0" for rs
    by (simp add: after_calls_unavailable io0_def)
  have "events (world s') = calendar0"
    by (simp add: syncEvents_Inr(4) [OF run] same)
  with r down run c p counts show ?thesis by (auto simp: io0_def)
qed

lemmas run_defs = run_twice_def syncEvents_def googleEventsByUid_def outlookSyncUid_of_def
  private_of_def outlookLastModified_of_def map_get_def sync_outlook_event_def
  googleEventBody_def hasEventChanged_def createGoogleEvent_def updateGoogleEvent_def
  deleteGoogleEvent_def do_fetch_def console_log_def console_error_def google_fetch_def
  answer_def insert_event_def patch_event_def patch_field_def fresh_id_def first_def Let_def

text \<open>
  Claim C1 (idempotence) as stated fails. A source event with the empty uid is created
  again by the second run, since \<^verbatim>\<open>if (uid)\<close> leaves its item out of the index; of two
  items with one uid the first run deletes one and the second run the other; and when the
  calendar applies nothing, the second run creates again what the first one tried.
\<close>

theorem idempotence_counterexample:
  "distinct (map uid [nameless])
   \<and> map_sum id stats (fst (run_twice ''now'' ''tok'' ''cal'' [nameless] (io0 [] True)))
       = Inr \<lparr>created = 1, updated = 0, deleted = 0, unchanged = 0\<rparr>
   \<and> map_sum id stats
        (fst (run_twice ''now'' ''tok'' ''cal'' [] (io0 [stored_review, stored_review_copy] True)))
       = Inr \<lparr>created = 0, updated = 0, deleted = 1, unchanged = 0\<rparr>
   \<and> map_sum id stats (fst (run_twice ''now'' ''tok'' ''cal'' [standup] (io0 [] False)))
       = Inr \<lparr>created = 1, updated = 0, deleted = 0, unchanged = 0\<rparr>"
  by (simp add: run_defs fixture_defs)

theorem idempotence_witness:
  "distinct (map uid [standup, holiday]) \<and> uid standup \<noteq> [] \<and> uid holiday \<noteq> []
   \<and> distinct (map id' calendar0) \<and> one_item_per_uid calendar0
   \<and> map_sum id stats (fst (run_twice ''now'' ''tok'' ''cal'' [standup, holiday] (io0 calendar0 True)))
       = Inr \<lparr>created = 0, updated = 0, deleted = 0, unchanged = 2\<rparr>"
proof -
  have h: "distinct (map uid [standup, holiday])" "\<forall>e\<in>set [standup, holiday]. uid e \<noteq> []"
    "distinct (map id' (events (world (io0 calendar0 True))))"
    "one_item_per_uid (events (world (io0 calendar0 True)))"
    "available (world (io0 calendar0 True))"
    by (simp_all add: uids0 ids0 calendar0_def io0_def one_item_per_uid_def truthy_def
        outlookSyncUid_of_def private_of_def stored_standup_def stored_review_def dentist_def owned_by_def)
  from idempotence [OF h, of "''now''" "''tok''" "''cal''"]
  obtain res2 s2 where
    "run_twice ''now'' ''tok'' ''cal'' [standup, holiday] (io0 calendar0 True) = (Inr res2, s2)"
    "stats res2 = \<lparr>created = 0, updated = 0, deleted = 0, unchanged = length [standup, holiday]\<rparr>"
    by blast
  then have "map_sum id stats (fst (run_twice ''now'' ''tok'' ''cal'' [standup, holiday] (io0 calendar0 True)))
       = Inr \<lparr>created = 0, updated = 0, deleted = 0, unchanged = 2\<rparr>" by simp
  with h show ?thesis by (simp add: io0_def)
qed

text \<open>
  Claim C3 (an update is a full overwrite) fails. The source event has no attendees, so
  the desired body has no \<open>attendees\<close>; the call is a \<^verbatim>\<open>PATCH\<close>, and the item keeps
  the attendee it had.
\<close>

theorem update_full_overwrite_counterexample:
  "outlook_event.attendees standup = []
   \<and> attendees (googleEventBody standup) = None
   \<and> calls (snd (syncEvents google_fetch ''now'' ''tok'' ''cal'' [standup] [stored_standup]
              (io0 [stored_standup] True)))
       = [\<lparr>method = PATCH, calendarId = ''cal'', eventId = Some ''g1'', authorization = ''tok'',
           body = Some (googleEventBody standup)\<rparr>]
   \<and> map attendees (events (world (snd (syncEvents google_fetch ''now'' ''tok'' ''cal'' [standup]
              [stored_standup] (io0 [stored_standup] True)))))
       = [Some [bob]]"
  by (simp add: run_defs fixture_defs)

theorem update_is_patch_witness:
  "map_get (googleEventsByUid calendar0) (uid standup) = Some stored_standup
   \<and> needs_update stored_standup standup
   \<and> stored_standup \<in> set calendar0 \<and> distinct (map id' calendar0)
   \<and> (\<exists>st' seen' s' g'.
         sync_outlook_event google_fetch ''tok'' ''cal'' (googleEventsByUid calendar0) standup
           \<lparr>created = 0, updated = 0, deleted = 0, unchanged = 0\<rparr> {} (io0 calendar0 True)
           = (Inr (st', seen'), s')
       \<and> events (world s') = [g', dentist, stored_review]
       \<and> summary g' = Some ''Standup''
       \<and> outlookLastModified_of g' = Some ''2024-01-02T00:00:00.000Z''
       \<and> attendees g' = Some [bob])"
proof -
  have h: "map_get (googleEventsByUid calendar0) (uid standup) = Some stored_standup"
    "needs_update stored_standup standup"
    "available (world (io0 calendar0 True))"
    "stored_standup \<in> set (events (world (io0 calendar0 True)))"
    "distinct (map id' (events (world (io0 calendar0 True))))"
    by (simp add: index0 uids0 map_get_def, rule stale0)
       (simp_all add: io0_def calendar0_def ids0)
  from update_is_patch [OF h, of "''tok''" "''cal''"
      "\<lparr>created = 0, updated = 0, deleted = 0, unchanged = 0\<rparr>" "{}"]
  obtain st' seen' s' g' where
    run: "sync_outlook_event google_fetch ''tok'' ''cal'' (googleEventsByUid calendar0) standup
           \<lparr>created = 0, updated = 0, deleted = 0, unchanged = 0\<rparr> {} (io0 calendar0 True)
           = (Inr (st', seen'), s')"
    and w: "events (world s') =
        map (\<lambda>x. if x = stored_standup then g' else x) (events (world (io0 calendar0 True)))"
    and f: "summary g' = Some (outlook_event.summary standup)"
      "extendedProperties g' = extendedProperties (googleEventBody standup)"
      "attendees g' =
         (if outlook_event.attendees standup \<noteq> [] then Some (outlook_event.attendees standup)
          else attendees stored_standup)"
    by blast
  have w': "events (world s') = [g', dentist, stored_review]"
    using w by (simp add: io0_def calendar0_def stored_standup_def dentist_def stored_review_def)
  have f': "summary g' = Some ''Standup''"
    "outlookLastModified_of g' = Some ''2024-01-02T00:00:00.000Z''"
    "attendees g' = Some [bob]"
    using f by (simp_all add: standup_def stored_standup_def googleEventBody_def
        outlookLastModified_of_def private_of_def)
  have "stored_standup \<in> set calendar0" "distinct (map id' calendar0)"
    by (simp_all add: calendar0_def ids0)
  with h(1,2) run w' f' show ?thesis by blast
qed

end
